theory Spec2Isabelle
  imports Complex_Main
begin

section \<open>Python string operations used by the bot\<close>

text \<open>
  A Python \<open>str\<close> is modelled as a \<open>string\<close> whose characters are the code points
  0..255 (Latin-1). On that range \<open>str.isspace\<close> holds for the code points 9..13, 28..32,
  133 and 160; \<open>str.lower\<close> maps A..Z and the capital letters 0xC0..0xDE (0xD7, the
  multiplication sign, apart) to the letter 32 places further; \<open>str.isdigit\<close> holds for the
  decimal digits and for the superscripts 0xB2, 0xB3 and 0xB9, which \<open>int()\<close> rejects.
\<close>

definition isspace :: "char \<Rightarrow> bool" where
  "isspace c =
     (let n = (of_char c :: nat)
      in (9 \<le> n \<and> n \<le> 13) \<or> (28 \<le> n \<and> n \<le> 32) \<or> n = 133 \<or> n = 160)"

definition lstrip :: "string \<Rightarrow> string" where
  "lstrip s = dropWhile isspace s"

definition rstrip :: "string \<Rightarrow> string" where
  "rstrip s = rev (dropWhile isspace (rev s))"

definition strip :: "string \<Rightarrow> string" where
  "strip s = rstrip (lstrip s)"

definition lstrip_chars :: "string \<Rightarrow> string \<Rightarrow> string" where
  \<comment> \<open>\<open>s.lstrip(chars)\<close>\<close>
  "lstrip_chars chars s = dropWhile (\<lambda>c. c \<in> set chars) s"

definition uppers :: string where
  "uppers = ''ABCDEFGHIJKLMNOPQRSTUVWXYZ'' @
     [CHR 0xC0, CHR 0xC1, CHR 0xC2, CHR 0xC3, CHR 0xC4, CHR 0xC5, CHR 0xC6, CHR 0xC7,
      CHR 0xC8, CHR 0xC9, CHR 0xCA, CHR 0xCB, CHR 0xCC, CHR 0xCD, CHR 0xCE, CHR 0xCF,
      CHR 0xD0, CHR 0xD1, CHR 0xD2, CHR 0xD3, CHR 0xD4, CHR 0xD5, CHR 0xD6,
      CHR 0xD8, CHR 0xD9, CHR 0xDA, CHR 0xDB, CHR 0xDC, CHR 0xDD, CHR 0xDE]"

definition lowers :: string where
  "lowers = ''abcdefghijklmnopqrstuvwxyz'' @
     [CHR 0xE0, CHR 0xE1, CHR 0xE2, CHR 0xE3, CHR 0xE4, CHR 0xE5, CHR 0xE6, CHR 0xE7,
      CHR 0xE8, CHR 0xE9, CHR 0xEA, CHR 0xEB, CHR 0xEC, CHR 0xED, CHR 0xEE, CHR 0xEF,
      CHR 0xF0, CHR 0xF1, CHR 0xF2, CHR 0xF3, CHR 0xF4, CHR 0xF5, CHR 0xF6,
      CHR 0xF8, CHR 0xF9, CHR 0xFA, CHR 0xFB, CHR 0xFC, CHR 0xFD, CHR 0xFE]"

definition lower_char :: "char \<Rightarrow> char" where
  "lower_char c = (case map_of (zip uppers lowers) c of Some l \<Rightarrow> l | None \<Rightarrow> c)"

definition lower :: "string \<Rightarrow> string" where
  "lower s = map lower_char s"

definition startswith :: "string \<Rightarrow> string \<Rightarrow> bool" where
  "startswith s p = (take (length p) s = p)"

fun split_from :: "string \<Rightarrow> string \<Rightarrow> string list" where
  "split_from cur [] = (if cur = [] then [] else [cur])"
| "split_from cur (c # cs) =
     (if isspace c then (if cur = [] then split_from [] cs else cur # split_from [] cs)
      else split_from (cur @ [c]) cs)"

definition split_ws :: "string \<Rightarrow> string list" where
  \<comment> \<open>\<open>s.split()\<close>: the maximal runs of non-whitespace characters, in order\<close>
  "split_ws s = split_from [] s"

fun join :: "string \<Rightarrow> string list \<Rightarrow> string" where
  "join sep [] = []"
| "join sep [x] = x"
| "join sep (x # y # ys) = x @ sep @ join sep (y # ys)"

definition isdecimal_char :: "char \<Rightarrow> bool" where
  "isdecimal_char c = (c \<in> set ''0123456789'')"

definition isdigit_char :: "char \<Rightarrow> bool" where
  "isdigit_char c = (isdecimal_char c \<or> c \<in> set [CHR 0xB2, CHR 0xB3, CHR 0xB9])"

definition isdigit :: "string \<Rightarrow> bool" where
  \<comment> \<open>\<open>s.isdigit()\<close>: non-empty and every character is a digit\<close>
  "isdigit s = (s \<noteq> [] \<and> list_all isdigit_char s)"

definition digit_val :: "char \<Rightarrow> int" where
  "digit_val c = int (length (takeWhile (\<lambda>d. d \<noteq> c) ''0123456789''))"

datatype exn =
    RuntimeError string
  | ValueError
  | AssertionError
  | JSONDecodeError
  | TimeoutError
  | OSError
  | ConnectionClosedOK
  | ConnectionClosedError
  | KeyboardInterrupt

definition int_of_digits :: "string \<Rightarrow> exn + int" where
  \<comment> \<open>\<open>int(s)\<close> as the bot calls it, on a string for which \<open>isdigit\<close> holds: the
      base-10 value when every character is a decimal digit, ValueError otherwise\<close>
  "int_of_digits s =
     (if s \<noteq> [] \<and> list_all isdecimal_char s
      then Inr (foldl (\<lambda>acc c. 10 * acc + digit_val c) 0 s)
      else Inl ValueError)"

fun str_nat :: "nat \<Rightarrow> string" where
  "str_nat n =
     (if n < 10 then [''0123456789'' ! n]
      else str_nat (n div 10) @ [''0123456789'' ! (n mod 10)])"

declare str_nat.simps [simp del]

definition str_int :: "int \<Rightarrow> string" where
  \<comment> \<open>the decimal text an f-string gives an \<open>int\<close>\<close>
  "str_int i = (if i < 0 then CHR ''-'' # str_nat (nat (- i)) else str_nat (nat i))"

definition py_or :: "string option \<Rightarrow> string option \<Rightarrow> string option" where
  \<comment> \<open>\<open>a or b\<close> on optional strings: \<open>a\<close> when it is a non-empty string, else \<open>b\<close>\<close>
  "py_or a b = (case a of Some s \<Rightarrow> (if s \<noteq> [] then Some s else b) | None \<Rightarrow> b)"

definition or_str :: "string option \<Rightarrow> string \<Rightarrow> string" where
  \<comment> \<open>\<open>a or "default"\<close>\<close>
  "or_str a d = (case a of Some s \<Rightarrow> (if s \<noteq> [] then s else d) | None \<Rightarrow> d)"


section \<open>Flattening a chat message\<close>

text \<open>
  A fragment and a message are JSON objects; a key that may be absent is an option, and
  the values read are strings. \<open>extract_plain_text_from_message\<close> appends the text of
  every fragment (both branches of its test on the fragment's type append the same value)
  and falls back to the message's own \<open>text\<close> key when there is no fragment.
\<close>

record fragment =
  frag_type :: "string option"
  frag_text :: "string option"

record message_obj =
  fragments :: "fragment list option"
  msg_text :: "string option"

definition get_or :: "'a option \<Rightarrow> 'a \<Rightarrow> 'a" where
  \<comment> \<open>\<open>d.get(key, default)\<close>\<close>
  "get_or v d = (case v of Some x \<Rightarrow> x | None \<Rightarrow> d)"

definition extract_plain_text_from_message :: "message_obj \<Rightarrow> string" where
  "extract_plain_text_from_message message_obj =
     (let frags = get_or (fragments message_obj) [];
          parts = map (\<lambda>f. if frag_type f = Some ''text'' then get_or (frag_text f) []
                            else get_or (frag_text f) []) frags
      in if parts \<noteq> [] then concat parts else or_str (msg_text message_obj) [])"


section \<open>The bot's state, its environment and its effects\<close>

text \<open>
  Time is a real number of seconds. The record \<open>bot\<close> holds the attributes of
  \<open>EventSubBot\<close> that the modelled methods read or write, the clock that \<open>time.time()\<close>
  reads and \<open>asyncio.sleep\<close> advances, and the trace of the calls made to the outside,
  each stamped with the clock at its end. Real arithmetic stands for Python's floats.

  In the trace, \<open>Connect\<close> is an attempt to open the websocket at a URL and
  \<open>Disconnect\<close> the exit from the \<open>async with\<close> block that closes it; the two POST
  requests carry the HTTP status they were answered with; \<open>Logged\<close> is the line that a
  handler of \<open>run\<close> prints for the exception it caught. Other console output is left
  out.
\<close>

datatype effect =
    Connect string
  | Disconnect
  | CreateSubscription string string nat
  | SendChat "string option" string "string option" nat
  | SetLights string
  | Sleep real
  | Logged exn

record bot =
  bot_user_id :: string
  broadcaster_ids :: "(string \<times> string) list"
  last_send :: real
  send_interval :: real
  last_lights :: real
  clock :: real
  trace :: "(real \<times> effect) list"

text \<open>
  What the outside answers while one frame is handled: how long the frame took to arrive,
  what the lighting service returns and how long it takes, the phrases the prize generator
  returns (by call number), by how much a sleep overshoots, and how long the chat POST
  takes and the HTTP status it returns.
\<close>

record env =
  wait :: real
  lights_ok :: bool
  lights_msg :: string
  lights_latency :: real
  generate_prize :: "nat \<Rightarrow> string"
  sleep_extra :: real
  send_latency :: real
  send_status :: nat

definition init :: "string \<Rightarrow> (string \<times> string) list \<Rightarrow> real \<Rightarrow> bot" where
  \<comment> \<open>\<open>__init__\<close>, then the identifiers that \<open>run\<close> resolves before its loop\<close>
  "init uid bids now =
     \<lparr>bot_user_id = uid, broadcaster_ids = bids, last_send = 0, send_interval = 12 / 10,
      last_lights = 0, clock = now, trace = []\<rparr>"

definition elapse :: "real \<Rightarrow> bot \<Rightarrow> bot" where
  "elapse d b = b\<lparr>clock := clock b + d\<rparr>"

definition emit :: "effect \<Rightarrow> bot \<Rightarrow> bot" where
  "emit x b = b\<lparr>trace := trace b @ [(clock b, x)]\<rparr>"

definition sleep :: "real \<Rightarrow> real \<Rightarrow> bot \<Rightarrow> bot" where
  \<comment> \<open>\<open>asyncio.sleep(d)\<close>, which returns after \<open>d\<close> seconds and some more\<close>
  "sleep d extra b = emit (Sleep d) (elapse (d + extra) b)"

definition set_lights_passthrough :: "env \<Rightarrow> string \<Rightarrow> bot \<Rightarrow> (bool \<times> string) \<times> bot" where
  "set_lights_passthrough e raw_value b =
     ((lights_ok e, lights_msg e), emit (SetLights raw_value) (elapse (lights_latency e) b))"

definition send_chat ::
  "env \<Rightarrow> string option \<Rightarrow> string \<Rightarrow> string \<Rightarrow> string option \<Rightarrow> bot \<Rightarrow> (exn + unit) \<times> bot" where
  "send_chat e broadcaster_id sender_id message reply_parent_message_id b =
     (let b' = emit (SendChat broadcaster_id message (py_or reply_parent_message_id None)
                       (send_status e)) (elapse (send_latency e) b)
      in if send_status e = 401
         then (Inl (RuntimeError ''Unauthorized: check user token and scopes''), b')
         else if send_status e \<ge> 400
         then (Inl (RuntimeError (''Send chat failed '' @ str_nat (send_status e))), b')
         else (Inr (), b'))"

definition reply ::
  "env \<Rightarrow> string \<Rightarrow> string option \<Rightarrow> string option \<Rightarrow> bot \<Rightarrow> (exn + unit) \<times> bot" where
  "reply e msg reply_to broadcaster_id b =
     (let now = clock b;
          b1 = (if now - last_send b < send_interval b
                then sleep (send_interval b - (now - last_send b)) (sleep_extra e) b
                else b)
      in if bot_user_id b1 = [] then (Inl AssertionError, b1)
         else (case send_chat e broadcaster_id (bot_user_id b1) msg reply_to b1 of
                 (Inl x, b2) \<Rightarrow> (Inl x, b2)
               | (Inr u, b2) \<Rightarrow> (Inr (), b2\<lparr>last_send := clock b2\<rparr>)))"


section \<open>The command processor\<close>

definition parse_prize :: "string list \<Rightarrow> string \<Rightarrow> exn + (string \<times> int)" where
  \<comment> \<open>the recipient and the count of \<open>!prize\<close> before the count is clamped\<close>
  "parse_prize parts recipient =
     (if length parts \<ge> 2 then
        (if isdigit (parts ! 1) then
           (case int_of_digits (parts ! 1) of
              Inl x \<Rightarrow> Inl x
            | Inr n \<Rightarrow> Inr (recipient, n))
         else
           (let recipient' = (let r = lstrip_chars ''@'' (parts ! 1)
                              in if r \<noteq> [] then r else recipient)
            in if length parts \<ge> 3 \<and> isdigit (parts ! 2) then
                 (case int_of_digits (parts ! 2) of
                    Inl x \<Rightarrow> Inl x
                  | Inr n \<Rightarrow> Inr (recipient', n))
               else Inr (recipient', 1)))
      else Inr (recipient, 1))"

definition prize_message :: "string \<Rightarrow> int \<Rightarrow> string list \<Rightarrow> string" where
  "prize_message recipient count prizes =
     (if count = 1 then recipient @ '' receives a prize: '' @ prizes ! 0
      else recipient @ '' receives prizes: '' @ join ''; '' prizes)"

definition cooldown_message :: "real \<Rightarrow> string" where
  "cooldown_message remaining =
     (let mins = \<lfloor>remaining / 60\<rfloor>;
          secs = \<lfloor>remaining - 60 * of_int \<lfloor>remaining / 60\<rfloor>\<rfloor>
      in ''Lights cooldown: try again in '' @ str_int mins @ ''m '' @ str_int secs @ ''s'')"

definition commands ::
  "env \<Rightarrow> string option \<Rightarrow> string option \<Rightarrow> string option \<Rightarrow> string option \<Rightarrow> bot
     \<Rightarrow> (exn + unit) \<times> bot" where
  "commands e text_in reply_to broadcaster_id chatter b =
     (let t = strip (or_str text_in []) in
      if \<not> startswith t ''!'' then (Inr (), b)
      else
        let lower = lower t in
        if lower = ''!hello'' then reply e ''Hey there! o/'' reply_to broadcaster_id b
        else if startswith lower ''!echo '' then reply e (drop 6 t) reply_to broadcaster_id b
        else if startswith lower ''!lights'' then
          (let arg = strip (drop (length ''!lights'') t) in
           if arg = [] then
             reply e ''Usage: !lights <colour name or #hex>'' reply_to broadcaster_id b
           else
             let cooldown = 300;
                 now = clock b;
                 remaining = cooldown - (now - last_lights b)
             in if remaining > 0 then
                  reply e (cooldown_message remaining) reply_to broadcaster_id b
                else
                  (case set_lights_passthrough e arg b of
                     ((ok, msg), b1) \<Rightarrow>
                       if ok then
                         reply e (''Lights set to '' @ arg) reply_to broadcaster_id
                           (b1\<lparr>last_lights := now\<rparr>)
                       else
                         reply e (''Lights error: '' @ msg) reply_to broadcaster_id b1))
        else if lower = ''!help'' then
          reply e ''Commands: !hello, !echo <text>, !prize'' reply_to broadcaster_id b
        else if startswith lower ''!prize'' then
          (case parse_prize (split_ws t) (or_str chatter ''someone'') of
             Inl x \<Rightarrow> (Inl x, b)
           | Inr (recipient, requested) \<Rightarrow>
               let count = max 1 (min 5 requested);
                   prizes = map (generate_prize e) [0..<nat count]
               in reply e (prize_message recipient count prizes) reply_to broadcaster_id b)
        else (Inr (), b))"


section \<open>Notifications and frames\<close>

text \<open>
  A frame is the decoded JSON of one websocket message, by its \<open>message_type\<close>; a text
  that \<open>json.loads\<close> rejects is \<open>NonJSON\<close>. A key of the event that is absent reads
  as \<open>None\<close>, an absent \<open>message\<close> as the object with no key.
\<close>

record event =
  broadcaster_user_id :: "string option"
  message :: message_obj
  chatter_user_name :: "string option"
  chatter_user_login :: "string option"
  message_id :: "string option"

record payload =
  subscription_type :: "string option"
  event :: event

datatype frame =
    NonJSON
  | Welcome string
  | Keepalive
  | Reconnect string
  | Notification payload
  | Revocation
  | Other

definition handle_notification :: "env \<Rightarrow> payload \<Rightarrow> bot \<Rightarrow> (exn + unit) \<times> bot" where
  "handle_notification e p b =
     (if subscription_type p = Some ''channel.chat.message'' then
        (let ev = event p;
             b_id = broadcaster_user_id ev;
             txt = extract_plain_text_from_message (message ev);
             chatter = py_or (chatter_user_name ev) (chatter_user_login ev)
         in commands e (Some txt) (message_id ev) b_id chatter b)
      else (Inr (), b))"

definition handle_message :: "env \<Rightarrow> frame \<Rightarrow> bot \<Rightarrow> (exn + unit) \<times> bot" where
  "handle_message e f b =
     (case f of
        NonJSON \<Rightarrow> (Inr (), b)
      | Keepalive \<Rightarrow> (Inr (), b)
      | Reconnect reconnect_url \<Rightarrow> (Inr (), b)
      | Notification p \<Rightarrow> handle_notification e p b
      | Revocation \<Rightarrow> (Inr (), b)
      | Welcome session_id \<Rightarrow> (Inr (), b)
      | Other \<Rightarrow> (Inr (), b))"

fun receive_loop :: "(frame \<times> env) list \<Rightarrow> bot \<Rightarrow> (exn + unit) \<times> bot" where
  \<comment> \<open>\<open>async for raw in ws: await self._handle_message(raw)\<close>\<close>
  "receive_loop [] b = (Inr (), b)"
| "receive_loop ((f, e) # rest) b =
     (case handle_message e f (elapse (wait e) b) of
        (Inl x, b') \<Rightarrow> (Inl x, b')
      | (Inr u, b') \<Rightarrow> receive_loop rest b')"


section \<open>The session: handshake, subscriptions and the reconnect loop\<close>

text \<open>
  One connection, as the server and the network play it: whether the connection opens,
  the frames that arrive (each with the answers of the outside while it is handled), how
  the stream ends after the last frame, the HTTP status and the duration of the
  subscription POST for a broadcaster, and the overshoot of the delay before the next
  connection.
\<close>

datatype closing = ClosedOK | ClosedError | Stalled | Interrupted

record conn =
  connect_ok :: bool
  incoming :: "(frame \<times> env) list"
  closing :: closing
  sub_status :: "string \<Rightarrow> nat"
  sub_latency :: real
  backoff_extra :: real

definition EVENTSUB_WS_URL :: string where
  "EVENTSUB_WS_URL = ''wss://eventsub.wss.twitch.tv/ws?keepalive_timeout_seconds=30''"

definition create_subscription :: "conn \<Rightarrow> string \<Rightarrow> string \<Rightarrow> bot \<Rightarrow> (exn + unit) \<times> bot" where
  "create_subscription c session_id bid b =
     (let b' = emit (CreateSubscription session_id bid (sub_status c bid))
                 (elapse (sub_latency c) b)
      in if sub_status c bid = 401
         then (Inl (RuntimeError ''Unauthorized to create EventSub subscription; check token/scopes''), b')
         else if sub_status c bid \<ge> 400
         then (Inl (RuntimeError (''Subscription create failed '' @ str_nat (sub_status c bid))), b')
         else (Inr (), b'))"

fun subscribe_all :: "conn \<Rightarrow> string \<Rightarrow> (string \<times> string) list \<Rightarrow> bot \<Rightarrow> (exn + unit) \<times> bot" where
  \<comment> \<open>\<open>for login, bid in self.broadcaster_ids.items(): create_subscription(...)\<close>\<close>
  "subscribe_all c session_id [] b = (Inr (), b)"
| "subscribe_all c session_id ((login, bid) # others) b =
     (case create_subscription c session_id bid b of
        (Inl x, b') \<Rightarrow> (Inl x, b')
      | (Inr u, b') \<Rightarrow> subscribe_all c session_id others b')"

definition end_of_stream :: "closing \<Rightarrow> exn" where
  \<comment> \<open>what \<open>ws.recv()\<close> under \<open>wait_for(..., timeout=10)\<close> raises once no frame is left\<close>
  "end_of_stream cl =
     (case cl of ClosedOK \<Rightarrow> ConnectionClosedOK | ClosedError \<Rightarrow> ConnectionClosedError
      | Stalled \<Rightarrow> TimeoutError | Interrupted \<Rightarrow> KeyboardInterrupt)"

fun on_connected ::
  "conn \<Rightarrow> (frame \<times> env) list \<Rightarrow> bot \<Rightarrow> (exn + string) \<times> bot \<times> (frame \<times> env) list" where
  "on_connected c [] b =
     (Inl (end_of_stream (closing c)), (if closing c = Stalled then elapse 10 b else b), [])"
| "on_connected c ((f, e) # rest) b =
     (if wait e > 10 then (Inl TimeoutError, elapse 10 b, (f, e) # rest)
      else
        let b0 = elapse (wait e) b in
        case f of
          NonJSON \<Rightarrow> (Inl JSONDecodeError, b0, rest)
        | Welcome session_id \<Rightarrow>
            (if bot_user_id b0 = [] then (Inl AssertionError, b0, rest)
             else (case subscribe_all c session_id (broadcaster_ids b0) b0 of
                     (Inl x, b1) \<Rightarrow> (Inl x, b1, rest)
                   | (Inr u, b1) \<Rightarrow> (Inr EVENTSUB_WS_URL, b1, rest)))
        | Reconnect reconnect_url \<Rightarrow> (Inr reconnect_url, b0, rest)
        | Keepalive \<Rightarrow> on_connected c rest b0
        | Notification p \<Rightarrow> on_connected c rest b0
        | Revocation \<Rightarrow> on_connected c rest b0
        | Other \<Rightarrow> on_connected c rest b0)"

text \<open>
  One pass of the \<open>while True\<close> loop of \<open>run\<close>. It ends with the URL of the next
  connection attempt (\<open>Next\<close>), with the return of \<open>run\<close> on KeyboardInterrupt
  (\<open>Stopped\<close>), or never: the receive loop waits for ever on a connection that stays open
  and silent (\<open>Blocked\<close>). Both handlers of exceptions log, sleep two seconds and go round
  the loop again.
\<close>

datatype verdict = Next string | Stopped | Blocked

definition on_exception :: "conn \<Rightarrow> string \<Rightarrow> exn \<Rightarrow> bot \<Rightarrow> verdict \<times> bot" where
  "on_exception c url x b =
     (if x = KeyboardInterrupt then (Stopped, b)
      else (Next url, sleep 2 (backoff_extra c) (emit (Logged x) b)))"

definition run_iteration :: "conn \<Rightarrow> string \<Rightarrow> bot \<Rightarrow> verdict \<times> bot" where
  "run_iteration c url b =
     (let b0 = emit (Connect url) b in
      if \<not> connect_ok c then on_exception c url OSError b0
      else
        (case on_connected c (incoming c) b0 of
           (Inl x, b1, rest) \<Rightarrow> on_exception c url x (emit Disconnect b1)
         | (Inr url', b1, rest) \<Rightarrow>
             (case receive_loop rest b1 of
                (Inl x, b2) \<Rightarrow> on_exception c url' x (emit Disconnect b2)
              | (Inr u, b2) \<Rightarrow>
                  (case closing c of
                     ClosedOK \<Rightarrow> (Next url', emit Disconnect b2)
                   | ClosedError \<Rightarrow>
                       on_exception c url' ConnectionClosedError (emit Disconnect b2)
                   | Interrupted \<Rightarrow>
                       on_exception c url' KeyboardInterrupt (emit Disconnect b2)
                   | Stalled \<Rightarrow> (Blocked, b2)))))"

fun run_loop :: "conn list \<Rightarrow> string \<Rightarrow> bot \<Rightarrow> verdict \<times> bot" where
  \<comment> \<open>the loop of \<open>run\<close> over the connections that follow; with none left, the verdict
      is the URL that the next attempt would target\<close>
  "run_loop [] url b = (Next url, b)"
| "run_loop (c # cs) url b =
     (case run_iteration c url b of
        (Next url', b') \<Rightarrow> run_loop cs url' b'
      | (Stopped, b') \<Rightarrow> (Stopped, b')
      | (Blocked, b') \<Rightarrow> (Blocked, b'))"

definition run :: "conn list \<Rightarrow> bot \<Rightarrow> verdict \<times> bot" where
  "run cs b = run_loop cs EVENTSUB_WS_URL b"


section \<open>Concrete inputs and observations\<close>

text \<open>
  A bot with one channel and an environment in which every outside call succeeds at once,
  for the concrete runs below.
\<close>

definition env0 :: env where
  "env0 = \<lparr>wait = 0, lights_ok = True, lights_msg = ''ok'', lights_latency = 0,
            generate_prize = (\<lambda>k. ''Golden Toaster''), sleep_extra = 0, send_latency = 0,
            send_status = 200\<rparr>"
definition bot0 :: bot where
  "bot0 = init ''9'' [(''alice'', ''1'')] 1000"

text \<open>
  The commands as the specification lists them, for comparison with the tests of
  \<open>_commands\<close>: the command word of a text is its first run of characters that are not
  whitespace, and the recognized command words are \<open>!hello\<close>, \<open>!echo\<close>, \<open>!help\<close>,
  \<open>!lights\<close> and \<open>!prize\<close> (taken on the lower-cased text, the command word being
  case-insensitive).
\<close>

definition command_word :: "string \<Rightarrow> string" where
  "command_word s = takeWhile (\<lambda>c. \<not> isspace c) (lstrip s)"

definition spec_recognized :: "string \<Rightarrow> bool" where
  "spec_recognized w = (w \<in> set [''!hello'', ''!echo'', ''!help'', ''!lights'', ''!prize''])"


text \<open>
  What a trace shows of the lighting service and of the chat: the values passed to
  \<open>set_lights_passthrough\<close> and the messages posted, each in order.
\<close>

fun lights_of :: "effect \<Rightarrow> string list" where
  "lights_of (SetLights v) = [v]"
| "lights_of _ = []"

definition lights_calls :: "bot \<Rightarrow> string list" where
  "lights_calls b = concat (map (\<lambda>x. lights_of (snd x)) (trace b))"

fun chat_of :: "effect \<Rightarrow> string list" where
  "chat_of (SendChat bid m r st) = [m]"
| "chat_of _ = []"

definition chat_messages :: "bot \<Rightarrow> string list" where
  "chat_messages b = concat (map (\<lambda>x. chat_of (snd x)) (trace b))"

definition env_lights_down :: env where
  "env_lights_down = env0\<lparr>lights_ok := False, lights_msg := ''HTTP 500: down''\<rparr>"

text \<open>
  Requests that failed. \<open>post_failure\<close> gives the exception that \<open>create_subscription\<close>
  or \<open>send_chat\<close> raises for the status recorded with the request, if any.
  \<open>orderly b b' ex\<close> says of a computation from \<open>b\<close> to \<open>b'\<close> that it only added to
  the trace and that a failed request, if there is one, is the last thing it did and the
  cause of the exception \<open>ex\<close> it raised. \<open>outcome_ok\<close> says the same of one pass of the
  loop of \<open>run\<close>, where a failed request is followed by the closing of the connection,
  the log line and the two seconds of sleep, and by the next pass.
\<close>

fun post_failure :: "effect \<Rightarrow> exn option" where
  "post_failure (CreateSubscription session_id bid st) =
     (if st = 401
      then Some (RuntimeError ''Unauthorized to create EventSub subscription; check token/scopes'')
      else if st \<ge> 400 then Some (RuntimeError (''Subscription create failed '' @ str_nat st))
      else None)"
| "post_failure (SendChat bid msg reply_to st) =
     (if st = 401 then Some (RuntimeError ''Unauthorized: check user token and scopes'')
      else if st \<ge> 400 then Some (RuntimeError (''Send chat failed '' @ str_nat st))
      else None)"
| "post_failure _ = None"

definition clean :: "(real \<times> effect) list \<Rightarrow> bool" where
  "clean new = list_all (\<lambda>x. post_failure (snd x) = None) new"

definition raised :: "exn + 'a \<Rightarrow> exn option" where
  "raised r = (case r of Inl x \<Rightarrow> Some x | Inr v \<Rightarrow> None)"

definition orderly :: "bot \<Rightarrow> bot \<Rightarrow> exn option \<Rightarrow> bool" where
  "orderly b b' ex =
     (\<exists>new. trace b' = trace b @ new \<and>
        (clean new \<or>
         (\<exists>pre x. new = pre @ [x] \<and> clean pre \<and> post_failure (snd x) \<noteq> None \<and>
                  ex = post_failure (snd x))))"

definition new_effects :: "bot \<Rightarrow> bot \<Rightarrow> effect list" where
  "new_effects b b' = map snd (drop (length (trace b)) (trace b'))"

definition after_lights :: "env \<Rightarrow> bot \<Rightarrow> bot \<Rightarrow> bool" where
  "after_lights e b b0 =
     (b0 = b \<or>
      (\<exists>arg. b0 = emit (SetLights arg) (elapse (lights_latency e) b) \<or>
             b0 = (emit (SetLights arg) (elapse (lights_latency e) b))\<lparr>last_lights := clock b\<rparr>))"

definition outcome_ok :: "effect list \<Rightarrow> verdict \<Rightarrow> bool" where
  "outcome_ok new v =
     (list_all (\<lambda>x. post_failure x = None) new \<or>
      (\<exists>pre x ex u. new = pre @ [x, Disconnect, Logged ex, Sleep 2] \<and>
          list_all (\<lambda>y. post_failure y = None) pre \<and> post_failure x = Some ex \<and> v = Next u))"

text \<open>
  Connections for the concrete runs: a welcome followed by a reconnect frame, a second
  connection, a connection on which the subscription request is refused with 401, one on
  which the reply to a command is refused with 401, and one on which it fails with 500.
\<close>

definition conn0 :: conn where
  "conn0 = \<lparr>connect_ok = True, incoming = [], closing = ClosedOK, sub_status = (\<lambda>bid. 202),
            sub_latency = 0, backoff_extra = 0\<rparr>"

definition chat :: "string \<Rightarrow> frame" where
  "chat txt = Notification
     \<lparr>subscription_type = Some ''channel.chat.message'',
      event = \<lparr>broadcaster_user_id = Some ''1'',
               message = \<lparr>fragments = Some [\<lparr>frag_type = Some ''text'', frag_text = Some txt\<rparr>],
                          msg_text = Some txt\<rparr>,
               chatter_user_name = Some ''amy'', chatter_user_login = Some ''amy'',
               message_id = Some ''m1''\<rparr>\<rparr>"

definition conn_reconnect :: conn where
  "conn_reconnect =
     conn0\<lparr>incoming := [(Welcome ''s1'', env0), (Reconnect ''wss://new.example/ws'', env0)]\<rparr>"

definition conn_second :: conn where
  "conn_second = conn0\<lparr>incoming := [(Welcome ''s2'', env0)], closing := Stalled\<rparr>"

definition conn_unauthorized :: conn where
  "conn_unauthorized = conn0\<lparr>incoming := [(Welcome ''s1'', env0)], sub_status := (\<lambda>bid. 401)\<rparr>"

definition conn_send_unauthorized :: conn where
  "conn_send_unauthorized =
     conn0\<lparr>incoming := [(Welcome ''s1'', env0), (chat ''!hello'', env0\<lparr>send_status := 401\<rparr>)]\<rparr>"

definition conn_send_fails :: conn where
  "conn_send_fails =
     conn0\<lparr>incoming := [(Welcome ''s1'', env0), (chat ''!hello'', env0\<lparr>send_status := 500\<rparr>),
                         (chat ''!help'', env0)]\<rparr>"

text \<open>
  Pacing. The completion times of the chat requests that succeeded, in order (the time
  that \<open>_reply\<close> then stores in \<open>_last_send\<close>); \<open>spaced\<close>, that every later time of
  a list is at least the interval after every earlier one; and the invariant \<open>paced\<close> of
  the bot, with the two ways a computation can preserve it. An environment is \<open>prompt\<close>
  when a sleep does not end early and a chat request takes no negative time.
\<close>

fun completion_of :: "real \<times> effect \<Rightarrow> real list" where
  "completion_of (t, SendChat bid msg reply_to st) = (if st < 400 then [t] else [])"
| "completion_of (t, x) = []"

definition completions :: "bot \<Rightarrow> real list" where
  "completions b = concat (map completion_of (trace b))"

definition spaced :: "real \<Rightarrow> real list \<Rightarrow> bool" where
  "spaced iv ts = (\<forall>i j. i < j \<and> j < length ts \<longrightarrow> ts ! i + iv \<le> ts ! j)"

definition paced :: "bot \<Rightarrow> bool" where
  "paced b =
     (0 \<le> send_interval b \<and> spaced (send_interval b) (completions b) \<and>
      (\<forall>c\<in>set (completions b). c \<le> last_send b))"

definition unsent :: "bot \<Rightarrow> bot \<Rightarrow> bool" where
  "unsent b b' =
     (send_interval b' = send_interval b \<and> last_send b' = last_send b \<and>
      completions b' = completions b)"

definition keeps :: "bot \<Rightarrow> bot \<Rightarrow> bool" where
  "keeps b b' = (send_interval b' = send_interval b \<and> (paced b \<longrightarrow> paced b'))"

definition prompt :: "env \<Rightarrow> bool" where
  "prompt e = (0 \<le> sleep_extra e \<and> 0 \<le> send_latency e)"

text \<open>
  A connection on which two commands arrive half a second apart.
\<close>

definition conn_busy :: conn where
  "conn_busy =
     conn0\<lparr>incoming := [(Welcome ''s1'', env0), (chat ''!hello'', env0),
                         (chat ''!help'', env0\<lparr>wait := 1 / 2\<rparr>)]\<rparr>"

section \<open>Properties of the string operations\<close>

lemma strip_all_ws: "list_all isspace ws \<Longrightarrow> strip ws = []"
proof -
  assume "list_all isspace ws"
  then have a: "lstrip ws = []" unfolding lstrip_def by (induction ws) simp_all
  show ?thesis unfolding strip_def a by (simp add: rstrip_def)
qed

lemma rstrip_append_ws: "list_all isspace z \<Longrightarrow> rstrip (s @ z) = rstrip s"
  by (simp add: rstrip_def list_all_iff dropWhile_append)

lemma lstrip_append_ws: "list_all isspace a \<Longrightarrow> lstrip (a @ s) = lstrip s"
  by (simp add: lstrip_def list_all_iff dropWhile_append)

lemma lstrip_append_right:
  "lstrip (s @ z) = (if list_all isspace s then lstrip z else lstrip s @ z)"
  by (auto simp add: lstrip_def list_all_iff dropWhile_append)

lemma rstrip_all_ws: "list_all isspace z \<Longrightarrow> rstrip z = []"
  by (simp add: rstrip_def list_all_iff)

lemma lstrip_all_ws: "list_all isspace z \<Longrightarrow> lstrip z = []"
  by (simp add: lstrip_def list_all_iff)

lemma strip_surrounded:
  assumes "list_all isspace a" and "list_all isspace z"
  shows "strip (a @ s @ z) = strip s"
proof (cases "list_all isspace s")
  case True
  with assms have "list_all isspace (a @ s @ z)" by simp
  then show ?thesis using True by (simp only: strip_all_ws)
next
  case False
  then show ?thesis using assms
    by (simp add: strip_def lstrip_append_ws lstrip_append_right rstrip_append_ws)
qed

lemma lstrip_head: "lstrip s \<noteq> [] \<Longrightarrow> \<not> isspace (hd (lstrip s))"
  unfolding lstrip_def by (rule hd_dropWhile)

lemma rstrip_last: "rstrip s \<noteq> [] \<Longrightarrow> \<not> isspace (last (rstrip s))"
  unfolding rstrip_def using hd_dropWhile[of isspace "rev s"] by (simp add: last_rev)

lemma strip_last: "strip s \<noteq> [] \<Longrightarrow> \<not> isspace (last (strip s))"
  unfolding strip_def by (rule rstrip_last)

lemma rstrip_fixed: "s \<noteq> [] \<Longrightarrow> \<not> isspace (last s) \<Longrightarrow> rstrip s = s"
  by (cases s rule: rev_cases) (simp_all add: rstrip_def)

lemma lstrip_fixed: "s = [] \<or> \<not> isspace (hd s) \<Longrightarrow> lstrip s = s"
  by (cases s) (auto simp add: lstrip_def)

lemma rstrip_prefix: "\<exists>z. s = rstrip s @ z \<and> list_all isspace z"
proof -
  have "rev s = takeWhile isspace (rev s) @ dropWhile isspace (rev s)" by simp
  then have "s = rev (dropWhile isspace (rev s)) @ rev (takeWhile isspace (rev s))"
    by (metis rev_append rev_rev_ident)
  moreover have "list_all isspace (rev (takeWhile isspace (rev s)))"
    by (simp add: list_all_iff) (meson set_takeWhileD)
  ultimately show ?thesis unfolding rstrip_def by blast
qed

lemma strip_head: "strip s \<noteq> [] \<Longrightarrow> \<not> isspace (hd (strip s))"
proof -
  assume ne: "strip s \<noteq> []"
  obtain z where z: "lstrip s = strip s @ z" unfolding strip_def using rstrip_prefix by blast
  then have "hd (lstrip s) = hd (strip s)" using ne by simp
  moreover have "lstrip s \<noteq> []" using z ne by simp
  ultimately show ?thesis using lstrip_head by metis
qed

lemma strip_idem: "strip (strip s) = strip s"
proof (cases "strip s = []")
  case True
  then show ?thesis by (simp add: strip_all_ws)
next
  case False
  have "lstrip (strip s) = strip s" using strip_head[OF False] by (simp add: lstrip_fixed)
  moreover have "rstrip (strip s) = strip s" using strip_last[OF False] False by (simp add: rstrip_fixed)
  ultimately show ?thesis by (simp add: strip_def[of "strip s"])
qed

lemma lower_char_preimage:
  assumes "lower_char c = d" and "d \<notin> set lowers"
  shows "c = d"
proof (cases "map_of (zip uppers lowers) c")
  case None
  then show ?thesis using assms by (simp add: lower_char_def)
next
  case (Some l)
  then have "l \<in> set lowers" by (meson map_of_SomeD set_zip_rightD)
  moreover have "d = l" using assms Some by (simp add: lower_char_def)
  ultimately show ?thesis using assms by simp
qed

lemma bang_not_lower: "CHR ''!'' \<notin> set lowers" by (simp add: lowers_def)
lemma space_not_lower: "CHR '' '' \<notin> set lowers" by (simp add: lowers_def)

lemma lower_length: "length (lower s) = length s" by (simp add: lower_def)

lemma lower_nth: "i < length s \<Longrightarrow> lower s ! i = lower_char (s ! i)" by (simp add: lower_def)

lemma startswith_nth:
  "startswith s p \<Longrightarrow> i < length p \<Longrightarrow> i < length s \<and> s ! i = p ! i"
  unfolding startswith_def
  by (metis length_take min_less_iff_conj nth_take)

lemma lower_bang:
  assumes "startswith (lower t) (CHR ''!'' # p)"
  shows "startswith t ''!''"
proof -
  from startswith_nth[OF assms, of 0] have l: "0 < length t" and e: "lower t ! 0 = CHR ''!''"
    by (simp_all add: lower_length)
  then have "lower_char (t ! 0) = CHR ''!''" by (simp add: lower_nth)
  then have "t ! 0 = CHR ''!''" using lower_char_preimage bang_not_lower by blast
  then show ?thesis using l by (cases t) (simp_all add: startswith_def)
qed

lemma or_str_nil: "or_str (Some s) [] = s" by (simp add: or_str_def)
lemma or_str_none: "or_str None d = d" by (simp add: or_str_def)

lemma commands_cong:
  "strip (or_str x []) = strip (or_str y []) \<Longrightarrow>
   commands e x r bid ch b = commands e y r bid ch b"
  by (simp add: commands_def)

lemma commands_blank:
  "strip (or_str x []) = [] \<Longrightarrow> commands e x r bid ch b = (Inr (), b)"
  by (simp add: commands_def startswith_def)

lemmas string_eval = strip_def lstrip_def rstrip_def isspace_def or_str_def startswith_def
  lower_def lower_char_def uppers_def lowers_def split_ws_def isdigit_def isdigit_char_def
  isdecimal_char_def int_of_digits_def digit_val_def lstrip_chars_def py_or_def get_or_def

lemmas bot_eval = reply_def send_chat_def emit_def elapse_def sleep_def
  set_lights_passthrough_def init_def


section \<open>Whitespace around a command\<close>

text \<open>
  C10. \<open>_commands\<close> strips leading and trailing whitespace before it dispatches: an
  absent text and a text of whitespace only produce nothing (no effect, no change of
  state); whitespace around a text changes nothing of what the command processor does
  with it; and every text is handled as its stripped form is.
\<close>

theorem commands_strips_whitespace:
  assumes "list_all isspace pre" and "list_all isspace post"
  shows "commands e None r bid ch b = (Inr (), b) \<and>
         commands e (Some pre) r bid ch b = (Inr (), b) \<and>
         commands e (Some (pre @ s @ post)) r bid ch b = commands e (Some s) r bid ch b \<and>
         commands e txt r bid ch b = commands e (Some (strip (or_str txt []))) r bid ch b"
proof -
  have "strip [] = []" by (simp add: strip_def lstrip_def rstrip_def)
  then have 1: "commands e None r bid ch b = (Inr (), b)"
    by (simp add: commands_blank or_str_none)
  have 2: "commands e (Some pre) r bid ch b = (Inr (), b)"
    using assms(1) by (simp add: commands_blank or_str_nil strip_all_ws)
  have 3: "commands e (Some (pre @ s @ post)) r bid ch b = commands e (Some s) r bid ch b"
    using assms by (intro commands_cong) (simp add: or_str_nil strip_surrounded)
  have 4: "commands e txt r bid ch b = commands e (Some (strip (or_str txt []))) r bid ch b"
    by (intro commands_cong) (simp add: or_str_nil strip_idem)
  from 1 2 3 4 show ?thesis by simp
qed

theorem commands_strips_whitespace_witness:
  "list_all isspace ''  '' \<and> list_all isspace '' '' \<and>
   commands env0 (Some (''  '' @ ''!hello'' @ '' '')) None (Some ''1'') (Some ''amy'') bot0
     = commands env0 (Some ''!hello'') None (Some ''1'') (Some ''amy'') bot0 \<and>
   map snd (trace (snd (commands env0 (Some ''!hello'') None (Some ''1'') (Some ''amy'') bot0)))
     = [SendChat (Some ''1'') ''Hey there! o/'' None 200]"
proof -
  have a: "list_all isspace ''  ''" and z: "list_all isspace '' ''"
    by (simp_all add: isspace_def)
  have "map snd (trace (snd (commands env0 (Some ''!hello'') None (Some ''1'') (Some ''amy'') bot0)))
     = [SendChat (Some ''1'') ''Hey there! o/'' None 200]"
    by (simp add: commands_def string_eval bot_eval env0_def bot0_def)
  then show ?thesis
    using a z commands_strips_whitespace [OF a z, of env0 None "Some ''1''" "Some ''amy''" bot0 "''!hello''"]
    by simp
qed


section \<open>Unknown commands\<close>

text \<open>
  What holds of unknown commands: a text whose command word is not one of the five listed
  and does not begin with \<open>!lights\<close> or \<open>!prize\<close> produces no outbound send and no
  collaborator call, the bot and its trace being unchanged; \<open>!xyzzy\<close> is such a text.
\<close>

lemma startswith_split: "startswith s p \<Longrightarrow> s = p @ drop (length p) s"
  unfolding startswith_def by (metis append_take_drop_id)

lemma word_of_echo: "startswith l ''!echo '' \<Longrightarrow> command_word l = ''!echo''"
proof -
  assume "startswith l ''!echo ''"
  then obtain rest where "l = ''!echo '' @ rest" using startswith_split by blast
  then show ?thesis by (simp add: command_word_def lstrip_def isspace_def)
qed

lemma word_of_lights: "startswith l ''!lights'' \<Longrightarrow> startswith (command_word l) ''!lights''"
proof -
  assume "startswith l ''!lights''"
  then obtain rest where "l = ''!lights'' @ rest" using startswith_split by blast
  then show ?thesis by (simp add: command_word_def lstrip_def isspace_def startswith_def)
qed

lemma word_of_prize: "startswith l ''!prize'' \<Longrightarrow> startswith (command_word l) ''!prize''"
proof -
  assume "startswith l ''!prize''"
  then obtain rest where "l = ''!prize'' @ rest" using startswith_split by blast
  then show ?thesis by (simp add: command_word_def lstrip_def isspace_def startswith_def)
qed

lemma word_of_hello: "command_word ''!hello'' = ''!hello''"
  by (simp add: command_word_def lstrip_def isspace_def)

lemma word_of_help: "command_word ''!help'' = ''!help''"
  by (simp add: command_word_def lstrip_def isspace_def)

lemma unlisted_command_word_ignored:
  assumes "w = command_word (lower (strip txt))"
    and "\<not> spec_recognized w"
    and "\<not> startswith w ''!lights''" and "\<not> startswith w ''!prize''"
  shows "commands e (Some txt) r bid ch b = (Inr (), b)"
proof -
  let ?l = "lower (strip txt)"
  have 1: "?l \<noteq> ''!hello''" using assms(1,2) word_of_hello by (auto simp add: spec_recognized_def)
  have 2: "\<not> startswith ?l ''!echo ''"
    using assms(1,2) word_of_echo by (auto simp add: spec_recognized_def)
  have 3: "\<not> startswith ?l ''!lights''" using assms(1,3) word_of_lights by auto
  have 4: "?l \<noteq> ''!help''" using assms(1,2) word_of_help by (auto simp add: spec_recognized_def)
  have 5: "\<not> startswith ?l ''!prize''" using assms(1,4) word_of_prize by auto
  show ?thesis using 1 2 3 4 5 by (simp add: commands_def or_str_nil Let_def)
qed

lemma unlisted_command_word_example:
  "commands env0 (Some ''!xyzzy'') None (Some ''1'') (Some ''amy'') bot0 = (Inr (), bot0)"
proof -
  have w: "''!xyzzy'' = command_word (lower (strip ''!xyzzy''))"
    by (simp add: command_word_def string_eval)
  show ?thesis
    by (rule unlisted_command_word_ignored[OF w]) (simp_all add: spec_recognized_def startswith_def)
qed

lemma prefixed_words_not_listed:
  "\<not> spec_recognized (command_word (lower (strip ''!lightsaber'')))"
  "\<not> spec_recognized (command_word (lower (strip ''!prizes 3'')))"
  by (simp_all add: spec_recognized_def command_word_def string_eval)

text \<open>
  C7 fails on the code for a command word that is not listed but begins with
  \<open>!lights\<close> or \<open>!prize\<close>. \<open>_commands\<close> tests these two commands with
  \<open>startswith\<close> and no word boundary, where it tests \<open>!hello\<close> and \<open>!help\<close> by
  equality and \<open>!echo\<close> with the space that follows it. So \<open>!lightsaber\<close> calls the
  lighting service with \<open>aber\<close> and replies, and \<open>!prizes 3\<close> replies with three
  prizes.
\<close>

theorem prefixed_command_word_handled:
  "lights_calls (snd (commands env0 (Some ''!lightsaber'') None (Some ''1'') (Some ''amy'') bot0))
     = [''aber''] \<and>
   chat_messages (snd (commands env0 (Some ''!lightsaber'') None (Some ''1'') (Some ''amy'') bot0))
     = [''Lights set to aber''] \<and>
   chat_messages (snd (commands env0 (Some ''!prizes 3'') None (Some ''1'') (Some ''amy'') bot0))
     = [''amy receives prizes: Golden Toaster; Golden Toaster; Golden Toaster'']"
  by (simp add: commands_def string_eval parse_prize_def prize_message_def bot_eval env0_def
        bot0_def lights_calls_def chat_messages_def upt_rec Let_def)


section \<open>Dispatch on the command word\<close>

lemma startswith_distinct:
  "startswith s p \<Longrightarrow> startswith s q \<Longrightarrow> i < length p \<Longrightarrow> i < length q \<Longrightarrow> p ! i = q ! i"
  using startswith_nth by metis

lemma eq_startswith: "s = p \<Longrightarrow> startswith s p" by (simp add: startswith_def)

lemma lights_not_others:
  assumes "startswith l ''!lights''"
  shows "l \<noteq> ''!hello''" and "\<not> startswith l ''!echo ''"
proof -
  show "l \<noteq> ''!hello''"
    using startswith_distinct[OF assms eq_startswith, of "''!hello''" 1] by auto
  show "\<not> startswith l ''!echo ''"
    using startswith_distinct[OF assms, of "''!echo ''" 1] by auto
qed

lemma prize_not_others:
  assumes "startswith l ''!prize''"
  shows "l \<noteq> ''!hello''" and "\<not> startswith l ''!echo ''" and "\<not> startswith l ''!lights''"
    and "l \<noteq> ''!help''"
proof -
  show "l \<noteq> ''!hello''"
    using startswith_distinct[OF assms eq_startswith, of "''!hello''" 1] by auto
  show "\<not> startswith l ''!echo ''"
    using startswith_distinct[OF assms, of "''!echo ''" 1] by auto
  show "\<not> startswith l ''!lights''"
    using startswith_distinct[OF assms, of "''!lights''" 1] by auto
  show "l \<noteq> ''!help''"
    using startswith_distinct[OF assms eq_startswith, of "''!help''" 1] by auto
qed

lemma reply_effects:
  assumes "bot_user_id b \<noteq> []" and "reply e msg r bid b = (res, b')"
  shows "lights_calls b' = lights_calls b \<and> last_lights b' = last_lights b \<and>
         chat_messages b' = chat_messages b @ [msg]"
  using assms
  by (auto simp add: reply_def send_chat_def sleep_def emit_def elapse_def Let_def
        lights_calls_def chat_messages_def split: if_splits)


section \<open>Flattened text of a message\<close>

text \<open>
  C9, as the code has it. For a message with at least one fragment the flattened text is
  the concatenation of the fragments' texts in their order, with nothing between them (a
  fragment without a text counts as empty); a message with no fragment flattens to its
  own \<open>text\<close> key, or to the empty string when that is absent.
\<close>

theorem extract_plain_text_fragments:
  "extract_plain_text_from_message m =
     (if get_or (fragments m) [] = [] then or_str (msg_text m) []
      else concat (map (\<lambda>f. get_or (frag_text f) []) (get_or (fragments m) [])))"
  by (simp add: extract_plain_text_from_message_def Let_def)

theorem extract_plain_text_fragments_witness:
  "extract_plain_text_from_message
     \<lparr>fragments = Some [\<lparr>frag_type = Some ''text'', frag_text = Some ''Hello ''\<rparr>,
                        \<lparr>frag_type = Some ''text'', frag_text = Some ''world''\<rparr>],
      msg_text = None\<rparr> = ''Hello world''"
  using extract_plain_text_fragments
    [of "\<lparr>fragments = Some [\<lparr>frag_type = Some ''text'', frag_text = Some ''Hello ''\<rparr>,
                        \<lparr>frag_type = Some ''text'', frag_text = Some ''world''\<rparr>],
      msg_text = None\<rparr>"]
  by (simp add: get_or_def)

text \<open>
  The claim as stated, for every message, fails on a message with an empty list of
  fragments and a text of its own: the concatenation is empty, the flattened text is not.
\<close>

theorem extract_plain_text_no_fragments_counterexample:
  "extract_plain_text_from_message \<lparr>fragments = Some [], msg_text = Some ''hi''\<rparr> = ''hi'' \<and>
   ''hi'' \<noteq> concat ([] :: string list)"
  by (simp add: extract_plain_text_from_message_def get_or_def or_str_def)


section \<open>The echo command\<close>

lemma echo_text_nonempty:
  assumes "startswith (lower (strip txt)) ''!echo ''"
  shows "drop 6 (strip txt) \<noteq> []"
proof
  assume e: "drop 6 (strip txt) = []"
  let ?t = "strip txt"
  from startswith_nth[OF assms, of 5] have l: "5 < length ?t" and c: "lower ?t ! 5 = CHR '' ''"
    by (simp_all add: lower_length)
  from e l have len: "length ?t = 6" by simp
  from c l have "lower_char (?t ! 5) = CHR '' ''" by (simp add: lower_nth)
  then have "?t ! 5 = CHR '' ''" using lower_char_preimage space_not_lower by blast
  moreover have ne: "?t \<noteq> []" using l by auto
  moreover have "last ?t = ?t ! 5" using ne by (simp add: last_conv_nth len)
  ultimately have "isspace (last ?t)" by (simp add: isspace_def)
  then show False using ne strip_last by blast
qed

lemma echo_dispatch:
  assumes "startswith (lower (strip txt)) ''!echo ''"
  shows "commands e (Some txt) r bid ch b = reply e (drop 6 (strip txt)) r bid b"
proof -
  have "startswith (strip txt) ''!''" using assms by (rule lower_bang)
  moreover have "lower (strip txt) \<noteq> ''!hello''"
    using assms by (auto simp add: startswith_def)
  ultimately show ?thesis using assms by (simp add: commands_def or_str_nil Let_def)
qed

lemma echo_bare:
  assumes "lower (strip txt) = ''!echo''"
  shows "commands e (Some txt) r bid ch b = (Inr (), b)"
  by (simp add: commands_def or_str_nil Let_def assms startswith_def)

text \<open>
  C8, as the code has it, on a bot that knows its own user id. When the stripped text
  begins, in any letter case, with \<open>!echo\<close> and a space, one chat message is posted: the
  stripped text from its seventh character on, unchanged (case and inner spacing kept; the
  whitespace that ended the message is gone with the strip). That message is never empty,
  and the lighting service is not called. The bare command word \<open>!echo\<close> posts nothing
  and leaves the bot unchanged.
\<close>

theorem echo_sends_stripped_text:
  assumes "commands e (Some txt) r bid ch b = (res, b')" and "bot_user_id b \<noteq> []"
  shows "(startswith (lower (strip txt)) ''!echo '' \<longrightarrow>
            chat_messages b' = chat_messages b @ [drop 6 (strip txt)] \<and>
            drop 6 (strip txt) \<noteq> [] \<and> lights_calls b' = lights_calls b) \<and>
         (lower (strip txt) = ''!echo'' \<longrightarrow>
            res = Inr () \<and> b' = b \<and> chat_messages b' = chat_messages b)"
proof (intro conjI impI)
  assume a: "startswith (lower (strip txt)) ''!echo ''"
  have "reply e (drop 6 (strip txt)) r bid b = (res, b')"
    using assms(1) echo_dispatch[OF a] by simp
  from reply_effects[OF assms(2) this]
  show "chat_messages b' = chat_messages b @ [drop 6 (strip txt)]"
    and "lights_calls b' = lights_calls b" by simp_all
  show "drop 6 (strip txt) \<noteq> []" using a by (rule echo_text_nonempty)
next
  assume a: "lower (strip txt) = ''!echo''"
  from echo_bare[OF a] assms(1) show "res = Inr ()" and "b' = b"
    and "chat_messages b' = chat_messages b" by simp_all
qed

theorem echo_sends_stripped_text_witness:
  "startswith (lower (strip ''!ECHO  Hi  There  '')) ''!echo '' \<and>
   chat_messages (snd (commands env0 (Some ''!ECHO  Hi  There  '') None (Some ''1'')
     (Some ''amy'') bot0)) = ['' Hi  There''] \<and>
   lower (strip ''!echo '') = ''!echo'' \<and>
   chat_messages (snd (commands env0 (Some ''!echo '') None (Some ''1'') (Some ''amy'') bot0)) = []"
proof -
  have a: "startswith (lower (strip ''!ECHO  Hi  There  '')) ''!echo ''"
    by (simp add: string_eval)
  have d: "drop 6 (strip ''!ECHO  Hi  There  '') = '' Hi  There''"
    by (simp add: string_eval)
  have n: "lower (strip ''!echo '') = ''!echo''" by (simp add: string_eval)
  have u: "bot_user_id bot0 \<noteq> []" by (simp add: bot0_def init_def)
  have z: "chat_messages bot0 = []" by (simp add: bot0_def init_def chat_messages_def)
  have c1: "commands env0 (Some ''!ECHO  Hi  There  '') None (Some ''1'') (Some ''amy'') bot0 =
      (fst (commands env0 (Some ''!ECHO  Hi  There  '') None (Some ''1'') (Some ''amy'') bot0),
       snd (commands env0 (Some ''!ECHO  Hi  There  '') None (Some ''1'') (Some ''amy'') bot0))"
    by simp
  have c2: "commands env0 (Some ''!echo '') None (Some ''1'') (Some ''amy'') bot0 =
      (fst (commands env0 (Some ''!echo '') None (Some ''1'') (Some ''amy'') bot0),
       snd (commands env0 (Some ''!echo '') None (Some ''1'') (Some ''amy'') bot0))"
    by simp
  note t1 = echo_sends_stripped_text
      [OF c1 u, THEN conjunct1, THEN mp, OF a, THEN conjunct1]
  note t2 = echo_sends_stripped_text
      [OF c2 u, THEN conjunct2, THEN mp, OF n]
  have 1: "chat_messages (snd (commands env0 (Some ''!ECHO  Hi  There  '') None (Some ''1'')
     (Some ''amy'') bot0)) = ['' Hi  There'']" using t1 d z by simp
  have 2: "chat_messages (snd (commands env0 (Some ''!echo '') None (Some ''1'') (Some ''amy'') bot0)) = []"
    using t2 z by simp
  show ?thesis by (intro conjI a n 1 2)
qed

text \<open>
  The claim as stated fails on an echo without text: \<open>!echo\<close>, with or without a
  space after it, sends no reply, where the claim has an empty reply sent.
\<close>

theorem echo_empty_text_counterexample:
  "commands env0 (Some ''!echo'') None (Some ''1'') (Some ''amy'') bot0 = (Inr (), bot0) \<and>
   commands env0 (Some ''!echo '') None (Some ''1'') (Some ''amy'') bot0 = (Inr (), bot0) \<and>
   trace bot0 = []"
  by (simp add: commands_def string_eval bot0_def init_def)


section \<open>The lights command and its cooldown\<close>

lemma floor_minutes_seconds:
  fixes x :: real
  shows "\<lfloor>x - 60 * of_int \<lfloor>x / 60\<rfloor>\<rfloor> = \<lfloor>x\<rfloor> mod 60"
proof -
  have d: "\<lfloor>x / 60\<rfloor> = \<lfloor>x\<rfloor> div 60"
    using floor_divide_real_eq_div[of 60 x] by simp
  have "x - 60 * of_int \<lfloor>x / 60\<rfloor> = x - of_int (60 * (\<lfloor>x\<rfloor> div 60))"
    by (simp add: d)
  then have "\<lfloor>x - 60 * of_int \<lfloor>x / 60\<rfloor>\<rfloor> = \<lfloor>x\<rfloor> - 60 * (\<lfloor>x\<rfloor> div 60)"
    by (simp only: floor_diff_of_int)
  then show ?thesis by (simp add: minus_mult_div_eq_mod)
qed

lemma cooldown_message_eq:
  "cooldown_message x =
     ''Lights cooldown: try again in '' @ str_int \<lfloor>x / 60\<rfloor> @ ''m '' @
       str_int (\<lfloor>x\<rfloor> mod 60) @ ''s''"
  by (simp add: cooldown_message_def Let_def floor_minutes_seconds)

lemma drop_seven: "drop (Suc (Suc (Suc (Suc (Suc (Suc (Suc 0))))))) xs = drop 7 xs"
  by (simp add: eval_nat_numeral)

lemma lights_dispatch:
  assumes "startswith (lower (strip txt)) ''!lights''"
  shows "commands e (Some txt) r bid ch b =
     (let arg = strip (drop 7 (strip txt)) in
      if arg = [] then reply e ''Usage: !lights <colour name or #hex>'' r bid b
      else if 300 - (clock b - last_lights b) > 0
           then reply e (cooldown_message (300 - (clock b - last_lights b))) r bid b
      else if lights_ok e
           then reply e (''Lights set to '' @ arg) r bid
                  ((snd (set_lights_passthrough e arg b))\<lparr>last_lights := clock b\<rparr>)
      else reply e (''Lights error: '' @ lights_msg e) r bid
                  (snd (set_lights_passthrough e arg b)))"
  using assms lower_bang[OF assms] lights_not_others[OF assms]
  by (simp add: commands_def or_str_nil Let_def set_lights_passthrough_def drop_seven)

text \<open>
  C3. A \<open>!lights\<close> command with a value, on a bot that knows its own user id. With
  \<open>remaining\<close> the 300 seconds less the time since \<open>_last_lights\<close> (one marker for
  all channels and users, written only on success): while \<open>remaining\<close> is positive the
  lighting service is not called, the marker is unchanged and the reply gives the remaining
  minutes and seconds; otherwise the value is passed to the lighting service, and the
  marker is set to the time of the command when the call succeeds (reply: lights set) and
  left unchanged when it fails (reply: the failure text), so that a retry calls the
  service again.
\<close>

theorem lights_cooldown:
  assumes "startswith (lower (strip txt)) ''!lights''"
    and "arg = strip (drop 7 (strip txt))" and "arg \<noteq> []"
    and "bot_user_id b \<noteq> []"
    and "commands e (Some txt) r bid ch b = (res, b')"
    and "remaining = 300 - (clock b - last_lights b)"
  shows "(if remaining > 0 then
            lights_calls b' = lights_calls b \<and> last_lights b' = last_lights b \<and>
            chat_messages b' = chat_messages b @
              [''Lights cooldown: try again in '' @ str_int \<lfloor>remaining / 60\<rfloor> @ ''m '' @
                 str_int (\<lfloor>remaining\<rfloor> mod 60) @ ''s'']
          else if lights_ok e then
            lights_calls b' = lights_calls b @ [arg] \<and> last_lights b' = clock b \<and>
            chat_messages b' = chat_messages b @ [''Lights set to '' @ arg]
          else
            lights_calls b' = lights_calls b @ [arg] \<and> last_lights b' = last_lights b \<and>
            chat_messages b' = chat_messages b @ [''Lights error: '' @ lights_msg e])"
proof -
  note d = lights_dispatch[OF assms(1), of e r bid ch b]
  let ?b1 = "snd (set_lights_passthrough e arg b)"
  have b1: "bot_user_id ?b1 \<noteq> []" "lights_calls ?b1 = lights_calls b @ [arg]"
    "last_lights ?b1 = last_lights b" "chat_messages ?b1 = chat_messages b"
    using assms(4)
    by (simp_all add: set_lights_passthrough_def emit_def elapse_def lights_calls_def
          chat_messages_def)
  show ?thesis
  proof (cases "remaining > 0")
    case True
    then have "reply e (cooldown_message remaining) r bid b = (res, b')"
      using d assms by (simp add: Let_def)
    from reply_effects[OF assms(4) this] True show ?thesis
      by (simp add: cooldown_message_eq)
  next
    case False
    show ?thesis
    proof (cases "lights_ok e")
      case True
      let ?b2 = "?b1\<lparr>last_lights := clock b\<rparr>"
      have "reply e (''Lights set to '' @ arg) r bid ?b2 = (res, b')"
        using d assms False True by (simp add: Let_def)
      moreover have "bot_user_id ?b2 \<noteq> []" using b1 by simp
      ultimately have "lights_calls b' = lights_calls ?b2 \<and> last_lights b' = last_lights ?b2 \<and>
         chat_messages b' = chat_messages ?b2 @ [''Lights set to '' @ arg]"
        using reply_effects by blast
      then show ?thesis using b1 False True
        by (simp add: lights_calls_def chat_messages_def)
    next
      case nok: False
      have "reply e (''Lights error: '' @ lights_msg e) r bid ?b1 = (res, b')"
        using d assms False nok by (simp add: Let_def)
      from reply_effects[OF b1(1) this] show ?thesis using b1 False nok by simp
    qed
  qed
qed

theorem lights_cooldown_witness:
  "lights_calls (snd (commands env0 (Some ''!lights red'') None (Some ''1'') (Some ''amy'') bot0))
     = [''red''] \<and>
   last_lights (snd (commands env0 (Some ''!lights red'') None (Some ''1'') (Some ''amy'') bot0))
     = 1000 \<and>
   lights_calls (snd (commands env0 (Some ''!lights red'') None (Some ''1'') (Some ''amy'')
     (bot0\<lparr>last_lights := 900\<rparr>))) = [] \<and>
   chat_messages (snd (commands env0 (Some ''!lights red'') None (Some ''1'') (Some ''amy'')
     (bot0\<lparr>last_lights := 900\<rparr>))) = [''Lights cooldown: try again in 3m 20s''] \<and>
   lights_calls (snd (commands env_lights_down (Some ''!lights red'') None (Some ''1'')
     (Some ''amy'') bot0)) = [''red''] \<and>
   last_lights (snd (commands env_lights_down (Some ''!lights red'') None (Some ''1'')
     (Some ''amy'') bot0)) = 0 \<and>
   chat_messages (snd (commands env_lights_down (Some ''!lights red'') None (Some ''1'')
     (Some ''amy'') bot0)) = [''Lights error: HTTP 500: down'']"
proof -
  have a: "startswith (lower (strip ''!lights red'')) ''!lights''" by (simp add: string_eval)
  have g: "''red'' = strip (drop 7 (strip ''!lights red''))" by (simp add: string_eval)
  have ne: "''red'' \<noteq> []" by simp
  have u: "bot_user_id bot0 \<noteq> []" "bot_user_id (bot0\<lparr>last_lights := 900\<rparr>) \<noteq> []"
    by (simp_all add: bot0_def init_def)
  have s: "str_int 3 = ''3''" "str_int 20 = ''20''" by (simp_all add: str_int_def str_nat.simps)
  have f: "\<lfloor>200 / 60 :: real\<rfloor> = 3" "\<lfloor>200 :: real\<rfloor> mod 60 = 20" by simp_all
  have z: "lights_calls bot0 = []" "chat_messages bot0 = []" "clock bot0 = 1000"
    "last_lights bot0 = 0"
    by (simp_all add: bot0_def init_def lights_calls_def chat_messages_def)
  have e: "lights_ok env0" "\<not> lights_ok env_lights_down"
    "lights_msg env_lights_down = ''HTTP 500: down''"
    by (simp_all add: env0_def env_lights_down_def)
  have 1: "(300::real) - (clock bot0 - last_lights bot0) = - 700" by (simp add: z)
  have 2: "(300::real) - (clock (bot0\<lparr>last_lights := 900\<rparr>) - last_lights (bot0\<lparr>last_lights := 900\<rparr>)) = 200"
    by (simp add: z)
  note ok = lights_cooldown [OF a g ne u(1) prod.collapse[symmetric] 1[symmetric],
      of env0 None "Some ''1''" "Some ''amy''"]
  note cool = lights_cooldown [OF a g ne u(2) prod.collapse[symmetric] 2[symmetric],
      of env0 None "Some ''1''" "Some ''amy''"]
  note down = lights_cooldown [OF a g ne u(1) prod.collapse[symmetric] 1[symmetric],
      of env_lights_down None "Some ''1''" "Some ''amy''"]
  have z2: "lights_calls (bot0\<lparr>last_lights := 900\<rparr>) = []"
      "chat_messages (bot0\<lparr>last_lights := 900\<rparr>) = []"
    using z by (simp_all add: lights_calls_def chat_messages_def)
  from ok have p1: "lights_calls (snd (commands env0 (Some ''!lights red'') None (Some ''1'') (Some ''amy'') bot0))
     = [''red''] \<and>
   last_lights (snd (commands env0 (Some ''!lights red'') None (Some ''1'') (Some ''amy'') bot0))
     = 1000" by (simp add: z e)
  from cool have p2: "lights_calls (snd (commands env0 (Some ''!lights red'') None (Some ''1'') (Some ''amy'')
     (bot0\<lparr>last_lights := 900\<rparr>))) = [] \<and>
   chat_messages (snd (commands env0 (Some ''!lights red'') None (Some ''1'') (Some ''amy'')
     (bot0\<lparr>last_lights := 900\<rparr>))) = [''Lights cooldown: try again in 3m 20s'']"
    by (simp add: z2 s f)
  from down have p3: "lights_calls (snd (commands env_lights_down (Some ''!lights red'') None (Some ''1'')
     (Some ''amy'') bot0)) = [''red''] \<and>
   last_lights (snd (commands env_lights_down (Some ''!lights red'') None (Some ''1'')
     (Some ''amy'') bot0)) = 0 \<and>
   chat_messages (snd (commands env_lights_down (Some ''!lights red'') None (Some ''1'')
     (Some ''amy'') bot0)) = [''Lights error: HTTP 500: down'']"
    by (simp add: z e)
  from p1 p2 p3 show ?thesis by blast
qed


section \<open>The prize command\<close>

text \<open>
  The prize command on a text whose arguments parse: the count is clamped to 1..5, one
  phrase is generated per unit, and the reply is singular for one phrase and a list
  joined by semicolons otherwise. The examples are those of the specification.
\<close>

lemma prize_dispatch:
  assumes "startswith (lower (strip txt)) ''!prize''"
  shows "commands e (Some txt) r bid ch b =
     (case parse_prize (split_ws (strip txt)) (or_str ch ''someone'') of
        Inl x \<Rightarrow> (Inl x, b)
      | Inr (recipient, requested) \<Rightarrow>
          reply e (prize_message recipient (max 1 (min 5 requested))
                     (map (generate_prize e) [0..<nat (max 1 (min 5 requested))])) r bid b)"
  using assms lower_bang[OF assms] prize_not_others[OF assms]
  by (simp add: commands_def or_str_nil Let_def split: sum.splits prod.splits)

lemma prize_count_clamped:
  "length (map (generate_prize e) [0..<nat (max 1 (min 5 requested))]) \<in> {1..5}"
  by auto

lemma prize_message_one: "prize_message rcp 1 [p] = rcp @ '' receives a prize: '' @ p"
  by (simp add: prize_message_def)

lemma prize_message_many:
  "n \<noteq> 1 \<Longrightarrow> prize_message rcp n ps = rcp @ '' receives prizes: '' @ join ''; '' ps"
  by (simp add: prize_message_def)

lemma prize_parse_examples:
  "parse_prize (split_ws (strip ''!prize 7'')) ''amy'' = Inr (''amy'', 7)"
  "parse_prize (split_ws (strip ''!prize 0'')) ''amy'' = Inr (''amy'', 0)"
  "parse_prize (split_ws (strip ''!prize bob 3'')) ''amy'' = Inr (''bob'', 3)"
  "parse_prize (split_ws (strip ''!prize @bob 3'')) ''amy'' = Inr (''bob'', 3)"
  "parse_prize (split_ws (strip ''!prize'')) ''amy'' = Inr (''amy'', 1)"
  by (simp_all add: string_eval parse_prize_def)

text \<open>
  C6 fails on a numeric argument that \<open>isdigit\<close> accepts and \<open>int\<close> rejects, such as
  the superscript two (code point 0xB2): \<open>_commands\<close> raises ValueError before any count
  is clamped, and no reply is sent.
\<close>

theorem prize_superscript_digit_raises:
  "isdigit [CHR 0xB2] \<and>
   commands env0 (Some (''!prize '' @ [CHR 0xB2])) None (Some ''1'') (Some ''amy'') bot0
     = (Inl ValueError, bot0)"
  by (simp add: commands_def string_eval parse_prize_def)


section \<open>Failed requests in the trace\<close>

lemma orderly_refl: "orderly b b ex"
  by (simp add: orderly_def clean_def)

lemma orderly_same_trace: "trace b' = trace b \<Longrightarrow> orderly b b' ex"
  by (simp add: orderly_def clean_def)

lemma orderly_clean: "trace b' = trace b @ new \<Longrightarrow> clean new \<Longrightarrow> orderly b b' ex"
  by (auto simp add: orderly_def)

lemma orderly_None: "orderly b b' None \<Longrightarrow> \<exists>new. trace b' = trace b @ new \<and> clean new"
  by (auto simp add: orderly_def)

lemma orderly_trans:
  assumes "orderly b b1 None" and "orderly b1 b2 ex"
  shows "orderly b b2 ex"
proof -
  from orderly_None[OF assms(1)] obtain n1 where n1: "trace b1 = trace b @ n1" "clean n1"
    by blast
  from assms(2) obtain n2 where n2: "trace b2 = trace b1 @ n2"
    and d: "clean n2 \<or> (\<exists>pre x. n2 = pre @ [x] \<and> clean pre \<and> post_failure (snd x) \<noteq> None \<and>
                  ex = post_failure (snd x))"
    unfolding orderly_def by blast
  have t: "trace b2 = trace b @ (n1 @ n2)" using n1 n2 by simp
  from d show ?thesis
  proof
    assume "clean n2"
    then have "clean (n1 @ n2)" using n1 by (simp add: clean_def)
    with t show ?thesis by (rule orderly_clean)
  next
    assume "\<exists>pre x. n2 = pre @ [x] \<and> clean pre \<and> post_failure (snd x) \<noteq> None \<and>
                  ex = post_failure (snd x)"
    then obtain pre x where p: "n2 = pre @ [x]" "clean pre" "post_failure (snd x) \<noteq> None"
      "ex = post_failure (snd x)" by blast
    have "n1 @ n2 = (n1 @ pre) @ [x]" using p by simp
    moreover have "clean (n1 @ pre)" using n1 p by (simp add: clean_def)
    ultimately show ?thesis unfolding orderly_def using t p by blast
  qed
qed

lemma orderly_elapse: "orderly b (elapse d b) ex"
  by (rule orderly_same_trace) (simp add: elapse_def)

lemma orderly_emit: "post_failure x = None \<Longrightarrow> orderly b (emit x b) ex"
  by (rule orderly_clean[where new="[(clock b, x)]"]) (simp_all add: emit_def clean_def)

lemma orderly_sleep: "orderly b (sleep d extra b) ex"
  unfolding sleep_def
  by (rule orderly_trans[OF orderly_elapse orderly_emit]) simp

lemma orderly_send_chat:
  "orderly b (snd (send_chat e bid sender msg r b)) (raised (fst (send_chat e bid sender msg r b)))"
proof -
  let ?x = "SendChat bid msg (py_or r None) (send_status e)"
  let ?b' = "emit ?x (elapse (send_latency e) b)"
  have t: "trace ?b' = trace b @ [(clock (elapse (send_latency e) b), ?x)]"
    by (simp add: emit_def elapse_def)
  have s: "snd (send_chat e bid sender msg r b) = ?b'"
    by (simp add: send_chat_def Let_def)
  have f: "raised (fst (send_chat e bid sender msg r b)) = post_failure ?x"
    by (simp add: send_chat_def Let_def raised_def)
  show ?thesis
  proof (cases "post_failure ?x")
    case None
    then have "clean [(clock (elapse (send_latency e) b), ?x)]"
      by (simp add: clean_def del: post_failure.simps)
    with t show ?thesis unfolding s by (rule orderly_clean)
  next
    case (Some a)
    show ?thesis unfolding s f orderly_def
      by (rule exI[where x="[(clock (elapse (send_latency e) b), ?x)]"], rule conjI, rule t,
          rule disjI2, rule exI[where x="[]"], rule exI[where x="(clock (elapse (send_latency e) b), ?x)"])
         (simp add: clean_def Some del: post_failure.simps)
  qed
qed

lemma orderly_reply:
  "orderly b (snd (reply e msg r bid b)) (raised (fst (reply e msg r bid b)))"
proof -
  define b1 where "b1 = (if clock b - last_send b < send_interval b
                then sleep (send_interval b - (clock b - last_send b)) (sleep_extra e) b
                else b)"
  have o1: "orderly b b1 None" unfolding b1_def by (simp add: orderly_sleep orderly_refl)
  show ?thesis
  proof (cases "bot_user_id b1 = []")
    case True
    then have "snd (reply e msg r bid b) = b1"
      by (simp add: reply_def Let_def b1_def)
    moreover have "orderly b b1 (raised (fst (reply e msg r bid b)))"
      using orderly_None[OF o1] orderly_clean by blast
    ultimately show ?thesis by simp
  next
    case False
    let ?s = "send_chat e bid (bot_user_id b1) msg r b1"
    have tr: "trace (snd (reply e msg r bid b)) = trace (snd ?s)"
      using False by (simp add: reply_def Let_def b1_def[symmetric] split: prod.splits sum.splits)
    have rs: "raised (fst (reply e msg r bid b)) = raised (fst ?s)"
      using False
      by (simp add: reply_def Let_def b1_def[symmetric] raised_def split: prod.splits sum.splits)
    have "orderly b (snd ?s) (raised (fst ?s))"
      by (rule orderly_trans[OF o1 orderly_send_chat])
    then show ?thesis unfolding rs[symmetric] orderly_def tr .
  qed
qed

lemma commands_shape:
  "commands e t r bid ch b = (Inr (), b) \<or>
   (\<exists>x. commands e t r bid ch b = (Inl x, b)) \<or>
   (\<exists>msg b0. commands e t r bid ch b = reply e msg r bid b0 \<and> after_lights e b b0)"
proof -
  have refl: "after_lights e b b" by (simp add: after_lights_def)
  have l1: "\<And>arg. after_lights e b (emit (SetLights arg) (elapse (lights_latency e) b))"
    by (auto simp add: after_lights_def)
  have l2: "\<And>arg. after_lights e b
      ((emit (SetLights arg) (elapse (lights_latency e) b))\<lparr>last_lights := clock b\<rparr>)"
    by (auto simp add: after_lights_def)
  show ?thesis
    unfolding commands_def Let_def set_lights_passthrough_def
    using refl l1 l2
    by (simp split: sum.splits prod.splits) blast
qed

lemma orderly_after_lights: "after_lights e b b0 \<Longrightarrow> orderly b b0 None"
  unfolding after_lights_def
proof (elim disjE exE)
  assume "b0 = b" then show ?thesis by (simp add: orderly_refl)
next
  fix arg assume "b0 = emit (SetLights arg) (elapse (lights_latency e) b)"
  then show ?thesis using orderly_trans[OF orderly_elapse orderly_emit] by simp
next
  fix arg assume a: "b0 = (emit (SetLights arg) (elapse (lights_latency e) b))\<lparr>last_lights := clock b\<rparr>"
  have "orderly b (emit (SetLights arg) (elapse (lights_latency e) b)) None"
    using orderly_trans[OF orderly_elapse orderly_emit] by simp
  moreover have "orderly (emit (SetLights arg) (elapse (lights_latency e) b)) b0 None"
    unfolding a by (rule orderly_same_trace) simp
  ultimately show ?thesis by (rule orderly_trans)
qed

lemma orderly_commands:
  "orderly b (snd (commands e t r bid ch b)) (raised (fst (commands e t r bid ch b)))"
  using commands_shape[of e t r bid ch b]
proof (elim disjE exE conjE)
  assume "commands e t r bid ch b = (Inr (), b)"
  then show ?thesis by (simp add: orderly_refl)
next
  fix x assume "commands e t r bid ch b = (Inl x, b)"
  then show ?thesis by (simp add: orderly_refl)
next
  fix msg b0 assume c: "commands e t r bid ch b = reply e msg r bid b0" and a: "after_lights e b b0"
  show ?thesis unfolding c
    by (rule orderly_trans[OF orderly_after_lights[OF a] orderly_reply])
qed

lemma orderly_handle_notification:
  "orderly b (snd (handle_notification e p b)) (raised (fst (handle_notification e p b)))"
  by (simp add: handle_notification_def Let_def orderly_commands orderly_refl)

lemma orderly_handle_message:
  "orderly b (snd (handle_message e f b)) (raised (fst (handle_message e f b)))"
  by (cases f) (simp_all add: handle_message_def orderly_handle_notification orderly_refl)

lemma raised_Inr: "raised r = None \<longleftrightarrow> (\<exists>v. r = Inr v)"
  by (cases r) (simp_all add: raised_def)

lemma orderly_receive_loop:
  "orderly b (snd (receive_loop fs b)) (raised (fst (receive_loop fs b)))"
proof (induction fs arbitrary: b)
  case Nil
  show ?case by (simp add: orderly_refl)
next
  case (Cons fe fs)
  obtain f e where fe: "fe = (f, e)" by (cases fe)
  let ?h = "handle_message e f (elapse (wait e) b)"
  have h: "orderly b (snd ?h) (raised (fst ?h))"
    by (rule orderly_trans[OF orderly_elapse orderly_handle_message])
  show ?case
  proof (cases "fst ?h")
    case (Inl x)
    then have "receive_loop (fe # fs) b = (Inl x, snd ?h)"
      by (cases ?h) (simp add: fe)
    then show ?thesis using h Inl by (simp add: raised_def)
  next
    case (Inr u)
    then have "receive_loop (fe # fs) b = receive_loop fs (snd ?h)"
      by (cases ?h) (simp add: fe)
    moreover have "orderly b (snd ?h) None" using h Inr by (simp add: raised_def)
    ultimately show ?thesis using orderly_trans Cons.IH by simp
  qed
qed

lemma orderly_create_subscription:
  "orderly b (snd (create_subscription c sid bid b)) (raised (fst (create_subscription c sid bid b)))"
proof -
  let ?x = "CreateSubscription sid bid (sub_status c bid)"
  let ?b' = "emit ?x (elapse (sub_latency c) b)"
  have t: "trace ?b' = trace b @ [(clock (elapse (sub_latency c) b), ?x)]"
    by (simp add: emit_def elapse_def)
  have s: "snd (create_subscription c sid bid b) = ?b'"
    by (simp add: create_subscription_def Let_def)
  have f: "raised (fst (create_subscription c sid bid b)) = post_failure ?x"
    by (simp add: create_subscription_def Let_def raised_def)
  show ?thesis
  proof (cases "post_failure ?x")
    case None
    then have "clean [(clock (elapse (sub_latency c) b), ?x)]"
      by (simp add: clean_def del: post_failure.simps)
    with t show ?thesis unfolding s by (rule orderly_clean)
  next
    case (Some a)
    show ?thesis unfolding s f orderly_def
      by (rule exI[where x="[(clock (elapse (sub_latency c) b), ?x)]"], rule conjI, rule t,
          rule disjI2, rule exI[where x="[]"], rule exI[where x="(clock (elapse (sub_latency c) b), ?x)"])
         (simp add: clean_def Some del: post_failure.simps)
  qed
qed

lemma orderly_subscribe_all:
  "orderly b (snd (subscribe_all c sid bids b)) (raised (fst (subscribe_all c sid bids b)))"
proof (induction bids arbitrary: b)
  case Nil
  show ?case by (simp add: orderly_refl)
next
  case (Cons lb bids)
  obtain login bid where lb: "lb = (login, bid)" by (cases lb)
  let ?h = "create_subscription c sid bid b"
  have h: "orderly b (snd ?h) (raised (fst ?h))" by (rule orderly_create_subscription)
  show ?case
  proof (cases "fst ?h")
    case (Inl x)
    then have "subscribe_all c sid (lb # bids) b = (Inl x, snd ?h)"
      by (cases ?h) (simp add: lb)
    then show ?thesis using h Inl by (simp add: raised_def)
  next
    case (Inr u)
    then have "subscribe_all c sid (lb # bids) b = subscribe_all c sid bids (snd ?h)"
      by (cases ?h) (simp add: lb)
    moreover have "orderly b (snd ?h) None" using h Inr by (simp add: raised_def)
    ultimately show ?thesis using orderly_trans Cons.IH by simp
  qed
qed

lemma orderly_on_connected:
  "orderly b (fst (snd (on_connected c fs b))) (raised (fst (on_connected c fs b)))"
proof (induction fs arbitrary: b)
  case Nil
  show ?case by (simp add: orderly_refl orderly_elapse)
next
  case (Cons fe fs)
  obtain f e where fe: "fe = (f, e)" by (cases fe)
  show ?case
  proof (cases "wait e > 10")
    case True
    then show ?thesis by (simp add: fe orderly_elapse)
  next
    case False
    let ?b0 = "elapse (wait e) b"
    have e0: "orderly b ?b0 None" by (rule orderly_elapse)
    have step: "\<And>ex. orderly b ?b0 ex" by (rule orderly_elapse)
    have rec: "orderly b (fst (snd (on_connected c fs ?b0))) (raised (fst (on_connected c fs ?b0)))"
      by (rule orderly_trans[OF e0 Cons.IH])
    show ?thesis
    proof (cases f)
      case (Welcome sid)
      let ?s = "subscribe_all c sid (broadcaster_ids ?b0) ?b0"
      have s: "orderly b (snd ?s) (raised (fst ?s))"
        by (rule orderly_trans[OF e0 orderly_subscribe_all])
      show ?thesis
      proof (cases "bot_user_id ?b0 = []")
        case True
        then show ?thesis using False step by (simp add: fe Welcome Let_def)
      next
        case ne: False
        show ?thesis
        proof (cases "fst ?s")
          case (Inl x)
          then show ?thesis using False ne s
            by (cases ?s) (simp add: fe Welcome Let_def raised_def)
        next
          case (Inr u)
          then have "orderly b (snd ?s) None" using s by (simp add: raised_def)
          then have "\<And>ex. orderly b (snd ?s) ex"
            using orderly_None orderly_clean by blast
          then show ?thesis using False ne Inr
            by (cases ?s) (simp add: fe Welcome Let_def raised_def)
        qed
      qed
    qed (use False step rec in \<open>simp_all add: fe Let_def\<close>)
  qed
qed

lemma new_effects_append: "trace b' = trace b @ new \<Longrightarrow> new_effects b b' = map snd new"
  by (simp add: new_effects_def)

lemma post_failure_runtime: "post_failure x = Some ex \<Longrightarrow> \<exists>m. ex = RuntimeError m"
  by (cases x) (auto split: if_splits)

lemma outcome_clean:
  "trace b' = trace b @ new \<Longrightarrow> clean new \<Longrightarrow> outcome_ok (new_effects b b') v"
  by (simp add: new_effects_append outcome_ok_def clean_def list_all_iff)

lemma outcome_on_exception:
  assumes o: "orderly b b1 (Some x)"
    and r: "on_exception c u x (emit Disconnect b1) = (v, b')"
  shows "outcome_ok (new_effects b b') v"
proof -
  from o obtain n where n: "trace b1 = trace b @ n"
    and d: "clean n \<or> (\<exists>pre y. n = pre @ [y] \<and> clean pre \<and> post_failure (snd y) \<noteq> None \<and>
                  Some x = post_failure (snd y))"
    unfolding orderly_def by blast
  from d show ?thesis
  proof
    assume cl: "clean n"
    show ?thesis
    proof (cases "x = KeyboardInterrupt")
      case True
      then have "trace b' = trace b @ (n @ [(clock b1, Disconnect)])"
        using r n by (auto simp add: on_exception_def emit_def)
      moreover have "clean (n @ [(clock b1, Disconnect)])" using cl by (simp add: clean_def)
      ultimately show ?thesis by (rule outcome_clean)
    next
      case False
      then have "\<exists>t1 t2. trace b' = trace b @ (n @ [(clock b1, Disconnect), (t1, Logged x), (t2, Sleep 2)])"
        using r n by (auto simp add: on_exception_def emit_def sleep_def elapse_def)
      then obtain t1 t2 where
        "trace b' = trace b @ (n @ [(clock b1, Disconnect), (t1, Logged x), (t2, Sleep 2)])"
        by blast
      moreover have "clean (n @ [(clock b1, Disconnect), (t1, Logged x), (t2, Sleep 2)])"
        using cl by (simp add: clean_def)
      ultimately show ?thesis by (rule outcome_clean)
    qed
  next
    assume "\<exists>pre y. n = pre @ [y] \<and> clean pre \<and> post_failure (snd y) \<noteq> None \<and>
                  Some x = post_failure (snd y)"
    then obtain pre y where p: "n = pre @ [y]" "clean pre" "post_failure (snd y) = Some x"
      by auto
    from post_failure_runtime[OF p(3)] have nk: "x \<noteq> KeyboardInterrupt" by auto
    then have v: "v = Next u" using r by (auto simp add: on_exception_def)
    from nk have "\<exists>t1 t2. trace b' = trace b @ (n @ [(clock b1, Disconnect), (t1, Logged x), (t2, Sleep 2)])"
      using r n by (auto simp add: on_exception_def emit_def sleep_def elapse_def)
    then obtain t1 t2 where
      t: "trace b' = trace b @ (n @ [(clock b1, Disconnect), (t1, Logged x), (t2, Sleep 2)])"
      by blast
    have "new_effects b b' = map snd pre @ [snd y, Disconnect, Logged x, Sleep 2]"
      using new_effects_append[OF t] p by simp
    moreover have "list_all (\<lambda>y. post_failure y = None) (map snd pre)"
      using p(2) by (simp add: clean_def list_all_iff)
    ultimately show ?thesis unfolding outcome_ok_def using p(3) v by blast
  qed
qed

lemma orderly_any: "orderly b b' None \<Longrightarrow> orderly b b' ex"
  using orderly_None orderly_clean by blast

lemma run_iteration_outcome:
  assumes "run_iteration c url b = (v, b')"
  shows "outcome_ok (new_effects b b') v"
proof -
  let ?b0 = "emit (Connect url) b"
  have o0: "orderly b ?b0 None" by (rule orderly_emit) simp
  show ?thesis
  proof (cases "connect_ok c")
    case False
    then have r: "on_exception c url OSError ?b0 = (v, b')"
      using assms by (simp add: run_iteration_def Let_def)
    then have "\<exists>t0 t1 t2. trace b' = trace b @ [(t0, Connect url), (t1, Logged OSError), (t2, Sleep 2)]"
      by (auto simp add: on_exception_def emit_def sleep_def elapse_def)
    then obtain t0 t1 t2 where
      "trace b' = trace b @ [(t0, Connect url), (t1, Logged OSError), (t2, Sleep 2)]" by blast
    moreover have "clean [(t0, Connect url), (t1, Logged OSError), (t2, Sleep 2)]"
      by (simp add: clean_def)
    ultimately show ?thesis by (rule outcome_clean)
  next
    case True
    let ?oc = "on_connected c (incoming c) ?b0"
    let ?b1 = "fst (snd ?oc)"
    let ?rest = "snd (snd ?oc)"
    have o1: "orderly b ?b1 (raised (fst ?oc))"
      by (rule orderly_trans[OF o0 orderly_on_connected])
    show ?thesis
    proof (cases "fst ?oc")
      case (Inl x)
      then have "on_exception c url x (emit Disconnect ?b1) = (v, b')"
        using assms True by (cases ?oc) (simp add: run_iteration_def Let_def)
      moreover have "orderly b ?b1 (Some x)" using o1 Inl by (simp add: raised_def)
      ultimately show ?thesis using outcome_on_exception by blast
    next
      case (Inr url')
      then have o1': "orderly b ?b1 None" using o1 by (simp add: raised_def)
      let ?rl = "receive_loop ?rest ?b1"
      let ?b2 = "snd ?rl"
      have o2: "orderly b ?b2 (raised (fst ?rl))"
        by (rule orderly_trans[OF o1' orderly_receive_loop])
      show ?thesis
      proof (cases "fst ?rl")
        case (Inl x)
        then have "on_exception c url' x (emit Disconnect ?b2) = (v, b')"
          using assms True Inr by (cases ?oc, cases ?rl) (simp add: run_iteration_def Let_def)
        moreover have "orderly b ?b2 (Some x)" using o2 Inl by (simp add: raised_def)
        ultimately show ?thesis using outcome_on_exception by blast
      next
        case rr: (Inr u)
        then have o2': "orderly b ?b2 None" using o2 by (simp add: raised_def)
        show ?thesis
        proof (cases "closing c")
          case ClosedOK
          then have "b' = emit Disconnect ?b2"
            using assms True Inr rr by (cases ?oc, cases ?rl) (simp add: run_iteration_def Let_def)
          then have "orderly ?b2 b' None" by (simp add: orderly_emit)
          from orderly_None[OF orderly_trans[OF o2' this]] show ?thesis
            using outcome_clean by blast
        next
          case ClosedError
          then have "on_exception c url' ConnectionClosedError (emit Disconnect ?b2) = (v, b')"
            using assms True Inr rr by (cases ?oc, cases ?rl) (simp add: run_iteration_def Let_def)
          then show ?thesis using outcome_on_exception orderly_any[OF o2'] by blast
        next
          case Interrupted
          then have "on_exception c url' KeyboardInterrupt (emit Disconnect ?b2) = (v, b')"
            using assms True Inr rr by (cases ?oc, cases ?rl) (simp add: run_iteration_def Let_def)
          then show ?thesis using outcome_on_exception orderly_any[OF o2'] by blast
        next
          case Stalled
          then have "b' = ?b2"
            using assms True Inr rr by (cases ?oc, cases ?rl) (simp add: run_iteration_def Let_def)
          then show ?thesis using orderly_None[OF o2'] outcome_clean by blast
        qed
      qed
    qed
  qed
qed

lemma failed_post_position:
  assumes "outcome_ok new v" and "x \<in> set new" and "post_failure x = Some ex"
  shows "\<exists>pre u. new = pre @ [x, Disconnect, Logged ex, Sleep 2] \<and>
           list_all (\<lambda>y. post_failure y = None) pre \<and> v = Next u"
proof -
  have "\<not> list_all (\<lambda>x. post_failure x = None) new"
    using assms(2,3) by (auto simp add: list_all_iff)
  with assms(1) obtain pre x' ex' u where
    n: "new = pre @ [x', Disconnect, Logged ex', Sleep 2]" and
    c: "list_all (\<lambda>y. post_failure y = None) pre" and
    f: "post_failure x' = Some ex'" and v: "v = Next u"
    unfolding outcome_ok_def by blast
  have "x \<notin> set pre" using c assms(3) by (auto simp add: list_all_iff)
  then have "x = x'" using assms(2,3) n by auto
  then show ?thesis using n c f v assms(3) by auto
qed

lemmas session_eval = run_def run_iteration_def on_exception_def create_subscription_def
  handle_message_def handle_notification_def extract_plain_text_from_message_def
  end_of_stream_def conn0_def chat_def env0_def bot0_def commands_def


section \<open>A reconnect frame in the receive loop\<close>

text \<open>
  C1 fails on the code. \<open>_handle_message\<close> only prints a line for a
  \<open>session_reconnect\<close> frame; the URL of the frame is read in \<open>_on_connected\<close> alone,
  before the welcome. In the run below the frame arrives after the welcome, the server
  then closes the connection, and the next connection attempt targets the default URL,
  not the one of the frame. (The subscriptions are submitted once on each connection that
  is welcomed.)
\<close>

theorem steady_state_reconnect_url_dropped:
  "map snd (trace (snd (run [conn_reconnect, conn_second] bot0))) =
     [Connect EVENTSUB_WS_URL, CreateSubscription ''s1'' ''1'' 202, Disconnect,
      Connect EVENTSUB_WS_URL, CreateSubscription ''s2'' ''1'' 202] \<and>
   EVENTSUB_WS_URL \<noteq> ''wss://new.example/ws''"
  by (simp add: session_eval conn_reconnect_def conn_second_def string_eval bot_eval Let_def
        EVENTSUB_WS_URL_def)


section \<open>Unauthorized requests\<close>

text \<open>
  C4, as the code has it. When a subscription request or a chat request made during one
  pass of the loop of \<open>run\<close> is answered with 401, the request is the last one of that
  connection: the RuntimeError it raises is caught, the connection is closed, the error is
  logged, two seconds pass, and the loop goes on with the next connection attempt. The
  pass does not end with the return of \<open>run\<close>.
\<close>

theorem unauthorized_is_retried:
  assumes "run_iteration c url b = (v, b')"
    and "x \<in> set (new_effects b b')"
    and "x = SendChat bid m r 401 \<or> x = CreateSubscription session_id bd 401"
  shows "\<exists>pre ex u. new_effects b b' = pre @ [x, Disconnect, Logged ex, Sleep 2] \<and>
           post_failure x = Some ex \<and> v = Next u \<and> v \<noteq> Stopped \<and>
           (\<forall>cs. run_loop (c # cs) url b = run_loop cs u b')"
proof -
  from assms(3) obtain ex where ex: "post_failure x = Some ex" by auto
  from failed_post_position[OF run_iteration_outcome[OF assms(1)] assms(2) ex]
  obtain pre u where p: "new_effects b b' = pre @ [x, Disconnect, Logged ex, Sleep 2]"
    and v: "v = Next u" by blast
  have "\<forall>cs. run_loop (c # cs) url b = run_loop cs u b'" using assms(1) v by simp
  moreover have "v \<noteq> Stopped" using v by simp
  ultimately show ?thesis using p ex v by blast
qed

theorem unauthorized_is_retried_witness:
  "(\<exists>pre ex u.
     new_effects bot0 (snd (run_iteration conn_unauthorized EVENTSUB_WS_URL bot0)) =
       pre @ [CreateSubscription ''s1'' ''1'' 401, Disconnect, Logged ex, Sleep 2] \<and>
     post_failure (CreateSubscription ''s1'' ''1'' 401) = Some ex \<and>
     fst (run_iteration conn_unauthorized EVENTSUB_WS_URL bot0) = Next u \<and>
     fst (run_iteration conn_unauthorized EVENTSUB_WS_URL bot0) \<noteq> Stopped \<and>
     (\<forall>cs. run_loop (conn_unauthorized # cs) EVENTSUB_WS_URL bot0 =
           run_loop cs u (snd (run_iteration conn_unauthorized EVENTSUB_WS_URL bot0)))) \<and>
   (\<exists>pre ex u.
     new_effects bot0 (snd (run_iteration conn_send_unauthorized EVENTSUB_WS_URL bot0)) =
       pre @ [SendChat (Some ''1'') ''Hey there! o/'' (Some ''m1'') 401, Disconnect, Logged ex,
              Sleep 2] \<and>
     post_failure (SendChat (Some ''1'') ''Hey there! o/'' (Some ''m1'') 401) = Some ex \<and>
     fst (run_iteration conn_send_unauthorized EVENTSUB_WS_URL bot0) = Next u \<and>
     fst (run_iteration conn_send_unauthorized EVENTSUB_WS_URL bot0) \<noteq> Stopped \<and>
     (\<forall>cs. run_loop (conn_send_unauthorized # cs) EVENTSUB_WS_URL bot0 =
           run_loop cs u (snd (run_iteration conn_send_unauthorized EVENTSUB_WS_URL bot0))))"
proof (rule conjI)
  have m: "CreateSubscription ''s1'' ''1'' 401 \<in>
      set (new_effects bot0 (snd (run_iteration conn_unauthorized EVENTSUB_WS_URL bot0)))"
    by (simp add: new_effects_def session_eval conn_unauthorized_def string_eval bot_eval Let_def)
  show "\<exists>pre ex u.
     new_effects bot0 (snd (run_iteration conn_unauthorized EVENTSUB_WS_URL bot0)) =
       pre @ [CreateSubscription ''s1'' ''1'' 401, Disconnect, Logged ex, Sleep 2] \<and>
     post_failure (CreateSubscription ''s1'' ''1'' 401) = Some ex \<and>
     fst (run_iteration conn_unauthorized EVENTSUB_WS_URL bot0) = Next u \<and>
     fst (run_iteration conn_unauthorized EVENTSUB_WS_URL bot0) \<noteq> Stopped \<and>
     (\<forall>cs. run_loop (conn_unauthorized # cs) EVENTSUB_WS_URL bot0 =
           run_loop cs u (snd (run_iteration conn_unauthorized EVENTSUB_WS_URL bot0)))"
    by (rule unauthorized_is_retried [OF prod.collapse[symmetric] m disjI2 [OF refl]])
next
  have m: "SendChat (Some ''1'') ''Hey there! o/'' (Some ''m1'') 401 \<in>
      set (new_effects bot0 (snd (run_iteration conn_send_unauthorized EVENTSUB_WS_URL bot0)))"
    by (simp add: new_effects_def session_eval conn_send_unauthorized_def string_eval bot_eval
          Let_def)
  show "\<exists>pre ex u.
     new_effects bot0 (snd (run_iteration conn_send_unauthorized EVENTSUB_WS_URL bot0)) =
       pre @ [SendChat (Some ''1'') ''Hey there! o/'' (Some ''m1'') 401, Disconnect, Logged ex,
              Sleep 2] \<and>
     post_failure (SendChat (Some ''1'') ''Hey there! o/'' (Some ''m1'') 401) = Some ex \<and>
     fst (run_iteration conn_send_unauthorized EVENTSUB_WS_URL bot0) = Next u \<and>
     fst (run_iteration conn_send_unauthorized EVENTSUB_WS_URL bot0) \<noteq> Stopped \<and>
     (\<forall>cs. run_loop (conn_send_unauthorized # cs) EVENTSUB_WS_URL bot0 =
           run_loop cs u (snd (run_iteration conn_send_unauthorized EVENTSUB_WS_URL bot0)))"
    by (rule unauthorized_is_retried [OF prod.collapse[symmetric] m disjI1 [OF refl]])
qed

text \<open>
  The claim as stated, that the process stops, fails on a connection whose subscription
  request is refused with 401: the loop connects again and repeats the request.
\<close>

theorem unauthorized_counterexample:
  "fst (run [conn_unauthorized, conn_unauthorized] bot0) = Next EVENTSUB_WS_URL \<and>
   map snd (trace (snd (run [conn_unauthorized, conn_unauthorized] bot0))) =
     [Connect EVENTSUB_WS_URL, CreateSubscription ''s1'' ''1'' 401, Disconnect,
      Logged (RuntimeError ''Unauthorized to create EventSub subscription; check token/scopes''),
      Sleep 2,
      Connect EVENTSUB_WS_URL, CreateSubscription ''s1'' ''1'' 401, Disconnect,
      Logged (RuntimeError ''Unauthorized to create EventSub subscription; check token/scopes''),
      Sleep 2]"
  by (simp add: session_eval conn_unauthorized_def string_eval bot_eval Let_def)


section \<open>Failed chat requests\<close>

text \<open>
  C5, as the code has it. When a chat request made during one pass of the loop of \<open>run\<close>
  fails with a status of 400 or more other than 401, no request before it on that
  connection failed and nothing follows it but the closing of the connection, the log
  line of the RuntimeError and the two seconds of sleep; the loop then makes its next
  connection attempt. The reply is lost and nothing is reported in chat.
\<close>

theorem send_failure_tears_down:
  assumes "run_iteration c url b = (v, b')"
    and "SendChat bid m r st \<in> set (new_effects b b')"
    and "400 \<le> st" and "st \<noteq> 401"
  shows "\<exists>pre u. new_effects b b' =
           pre @ [SendChat bid m r st, Disconnect,
                  Logged (RuntimeError (''Send chat failed '' @ str_nat st)), Sleep 2] \<and>
           list_all (\<lambda>y. post_failure y = None) pre \<and> v = Next u"
proof -
  have ex: "post_failure (SendChat bid m r st) =
      Some (RuntimeError (''Send chat failed '' @ str_nat st))"
    using assms(3,4) by simp
  from failed_post_position[OF run_iteration_outcome[OF assms(1)] assms(2) ex]
  show ?thesis .
qed

theorem send_failure_tears_down_witness:
  "\<exists>pre u. new_effects bot0 (snd (run_iteration conn_send_fails EVENTSUB_WS_URL bot0)) =
           pre @ [SendChat (Some ''1'') ''Hey there! o/'' (Some ''m1'') 500, Disconnect,
                  Logged (RuntimeError (''Send chat failed '' @ str_nat 500)), Sleep 2] \<and>
           list_all (\<lambda>y. post_failure y = None) pre \<and>
           fst (run_iteration conn_send_fails EVENTSUB_WS_URL bot0) = Next u"
proof -
  have m: "SendChat (Some ''1'') ''Hey there! o/'' (Some ''m1'') 500 \<in>
      set (new_effects bot0 (snd (run_iteration conn_send_fails EVENTSUB_WS_URL bot0)))"
    by (simp add: new_effects_def session_eval conn_send_fails_def string_eval bot_eval Let_def)
  have a: "(400::nat) \<le> 500" and b: "(500::nat) \<noteq> 401" by simp_all
  show ?thesis
    by (rule send_failure_tears_down [OF prod.collapse[symmetric] m a b])
qed

text \<open>
  The claim as stated, that the session stays in its receive loop, fails on a connection
  where the reply to \<open>!hello\<close> is refused with 500: the connection is closed and the
  command that follows on it is never handled.
\<close>

theorem send_failure_counterexample:
  "fst (run_iteration conn_send_fails EVENTSUB_WS_URL bot0) = Next EVENTSUB_WS_URL \<and>
   map snd (trace (snd (run_iteration conn_send_fails EVENTSUB_WS_URL bot0))) =
     [Connect EVENTSUB_WS_URL, CreateSubscription ''s1'' ''1'' 202,
      SendChat (Some ''1'') ''Hey there! o/'' (Some ''m1'') 500, Disconnect,
      Logged (RuntimeError ''Send chat failed 500''), Sleep 2]"
  by (simp add: session_eval conn_send_fails_def string_eval bot_eval Let_def str_nat.simps)


section \<open>Pacing of outbound sends\<close>

lemma spaced_snoc:
  "spaced iv (ts @ [t]) \<longleftrightarrow> spaced iv ts \<and> (\<forall>u\<in>set ts. u + iv \<le> t)"
proof
  assume s: "spaced iv (ts @ [t])"
  have "spaced iv ts" unfolding spaced_def
  proof (intro allI impI)
    fix i j assume ij: "i < j \<and> j < length ts"
    then have "(ts @ [t]) ! i + iv \<le> (ts @ [t]) ! j" using s by (simp add: spaced_def)
    then show "ts ! i + iv \<le> ts ! j" using ij by (simp add: nth_append)
  qed
  moreover have "\<forall>u\<in>set ts. u + iv \<le> t"
  proof
    fix u assume "u \<in> set ts"
    then obtain i where i: "i < length ts" "ts ! i = u" by (auto simp add: in_set_conv_nth)
    then have "(ts @ [t]) ! i + iv \<le> (ts @ [t]) ! length ts"
      using s[unfolded spaced_def, rule_format, of i "length ts"] by simp
    then show "u + iv \<le> t" using i by (simp add: nth_append)
  qed
  ultimately show "spaced iv ts \<and> (\<forall>u\<in>set ts. u + iv \<le> t)" by simp
next
  assume a: "spaced iv ts \<and> (\<forall>u\<in>set ts. u + iv \<le> t)"
  show "spaced iv (ts @ [t])" unfolding spaced_def
  proof (intro allI impI)
    fix i j assume ij: "i < j \<and> j < length (ts @ [t])"
    show "(ts @ [t]) ! i + iv \<le> (ts @ [t]) ! j"
    proof (cases "j < length ts")
      case True
      then show ?thesis using a ij by (simp add: spaced_def nth_append)
    next
      case False
      then have j: "j = length ts" using ij by simp
      then have "ts ! i \<in> set ts" using ij by simp
      then show ?thesis using a j ij by (simp add: nth_append)
    qed
  qed
qed

lemma unsent_refl: "unsent b b" by (simp add: unsent_def)

lemma unsent_trans: "unsent b b1 \<Longrightarrow> unsent b1 b2 \<Longrightarrow> unsent b b2" by (simp add: unsent_def)

lemma unsent_keeps: "unsent b b' \<Longrightarrow> keeps b b'" by (simp add: unsent_def keeps_def paced_def)

lemma keeps_refl: "keeps b b" by (simp add: keeps_def)

lemma keeps_trans: "keeps b b1 \<Longrightarrow> keeps b1 b2 \<Longrightarrow> keeps b b2" by (simp add: keeps_def)

lemma unsent_elapse: "unsent b (elapse d b)"
  by (simp add: unsent_def elapse_def completions_def)

lemma unsent_emit: "completion_of (clock b, x) = [] \<Longrightarrow> unsent b (emit x b)"
  by (simp add: unsent_def emit_def completions_def)

lemma unsent_sleep: "unsent b (sleep d extra b)"
  unfolding sleep_def by (rule unsent_trans[OF unsent_elapse unsent_emit]) simp

lemma unsent_last_lights: "unsent b (b\<lparr>last_lights := t\<rparr>)"
  by (simp add: unsent_def completions_def)

lemma unsent_after_lights: "after_lights e b b0 \<Longrightarrow> unsent b b0"
  unfolding after_lights_def
proof (elim disjE exE)
  assume "b0 = b" then show ?thesis by (simp add: unsent_refl)
next
  fix arg assume "b0 = emit (SetLights arg) (elapse (lights_latency e) b)"
  then show ?thesis using unsent_trans[OF unsent_elapse unsent_emit] by simp
next
  fix arg assume a: "b0 = (emit (SetLights arg) (elapse (lights_latency e) b))\<lparr>last_lights := clock b\<rparr>"
  have "unsent b (emit (SetLights arg) (elapse (lights_latency e) b))"
    using unsent_trans[OF unsent_elapse unsent_emit] by simp
  then show ?thesis unfolding a using unsent_last_lights unsent_trans by blast
qed

lemma keeps_reply:
  assumes "prompt e"
  shows "keeps b (snd (reply e msg r bid b))"
proof -
  define b1 where "b1 = (if clock b - last_send b < send_interval b
                then sleep (send_interval b - (clock b - last_send b)) (sleep_extra e) b
                else b)"
  have u1: "unsent b b1" unfolding b1_def by (simp add: unsent_sleep unsent_refl)
  have c1: "last_send b + send_interval b \<le> clock b1"
    using assms by (simp add: b1_def sleep_def emit_def elapse_def prompt_def)
  show ?thesis
  proof (cases "bot_user_id b1 = []")
    case True
    then have "snd (reply e msg r bid b) = b1" by (simp add: reply_def Let_def b1_def)
    then show ?thesis using u1 by (simp add: unsent_keeps)
  next
    case False
    let ?x = "SendChat bid msg (py_or r None) (send_status e)"
    let ?b2 = "emit ?x (elapse (send_latency e) b1)"
    have c2: "last_send b + send_interval b \<le> clock ?b2"
      using c1 assms by (simp add: emit_def elapse_def prompt_def)
    show ?thesis
    proof (cases "send_status e \<ge> 400")
      case True
      then have "snd (reply e msg r bid b) = ?b2"
        using False by (simp add: reply_def Let_def b1_def[symmetric] send_chat_def)
      moreover have "unsent b1 ?b2" using True
        by (intro unsent_trans[OF unsent_elapse unsent_emit]) simp
      ultimately show ?thesis using u1 unsent_trans unsent_keeps by metis
    next
      case ok: False
      then have s: "snd (reply e msg r bid b) = ?b2\<lparr>last_send := clock ?b2\<rparr>"
        using False by (simp add: reply_def Let_def b1_def[symmetric] send_chat_def)
      have comp: "completions (?b2\<lparr>last_send := clock ?b2\<rparr>) = completions b @ [clock ?b2]"
        using ok u1 by (simp add: completions_def emit_def elapse_def unsent_def)
      have iv: "send_interval (?b2\<lparr>last_send := clock ?b2\<rparr>) = send_interval b"
        using u1 by (simp add: emit_def elapse_def unsent_def)
      have "paced (?b2\<lparr>last_send := clock ?b2\<rparr>)" if p: "paced b"
      proof -
        from p have nn: "0 \<le> send_interval b" and sp: "spaced (send_interval b) (completions b)"
          and le: "\<forall>c\<in>set (completions b). c \<le> last_send b" by (simp_all add: paced_def)
        have far: "\<forall>u\<in>set (completions b). u + send_interval b \<le> clock ?b2"
          using le c2 by fastforce
        then have "\<forall>c\<in>set (completions b @ [clock ?b2]). c \<le> clock ?b2"
          using nn by fastforce
        then show ?thesis
          unfolding paced_def comp iv using nn sp far by (simp add: spaced_snoc)
      qed
      then show ?thesis unfolding s keeps_def using iv by blast
    qed
  qed
qed

lemma keeps_commands:
  assumes "prompt e"
  shows "keeps b (snd (commands e t r bid ch b))"
  using commands_shape[of e t r bid ch b]
proof (elim disjE exE conjE)
  assume "commands e t r bid ch b = (Inr (), b)"
  then show ?thesis by (simp add: keeps_refl)
next
  fix x assume "commands e t r bid ch b = (Inl x, b)"
  then show ?thesis by (simp add: keeps_refl)
next
  fix msg b0 assume c: "commands e t r bid ch b = reply e msg r bid b0" and a: "after_lights e b b0"
  show ?thesis unfolding c
    by (rule keeps_trans[OF unsent_keeps[OF unsent_after_lights[OF a]] keeps_reply[OF assms]])
qed

lemma keeps_handle_message:
  assumes "prompt e"
  shows "keeps b (snd (handle_message e f b))"
  by (cases f)
     (simp_all add: handle_message_def handle_notification_def Let_def keeps_refl
        keeps_commands[OF assms])

lemma keeps_receive_loop:
  "\<forall>fe\<in>set fs. prompt (snd fe) \<Longrightarrow> keeps b (snd (receive_loop fs b))"
proof (induction fs arbitrary: b)
  case Nil
  show ?case by (simp add: keeps_refl)
next
  case (Cons fe fs)
  obtain f e where fe: "fe = (f, e)" by (cases fe)
  let ?h = "handle_message e f (elapse (wait e) b)"
  have pe: "prompt e" using Cons.prems fe by simp
  have h: "keeps b (snd ?h)"
    by (rule keeps_trans[OF unsent_keeps[OF unsent_elapse] keeps_handle_message[OF pe]])
  show ?case
  proof (cases "fst ?h")
    case (Inl x)
    then have "receive_loop (fe # fs) b = (Inl x, snd ?h)" by (cases ?h) (simp add: fe)
    then show ?thesis using h by simp
  next
    case (Inr u)
    then have "receive_loop (fe # fs) b = receive_loop fs (snd ?h)" by (cases ?h) (simp add: fe)
    moreover have "keeps (snd ?h) (snd (receive_loop fs (snd ?h)))"
      using Cons.IH Cons.prems by simp
    ultimately show ?thesis using h keeps_trans by metis
  qed
qed

lemma unsent_create_subscription: "unsent b (snd (create_subscription c sid bid b))"
  by (simp add: create_subscription_def Let_def unsent_def emit_def elapse_def completions_def)

lemma unsent_subscribe_all: "unsent b (snd (subscribe_all c sid bids b))"
proof (induction bids arbitrary: b)
  case Nil
  show ?case by (simp add: unsent_refl)
next
  case (Cons lb bids)
  obtain login bid where lb: "lb = (login, bid)" by (cases lb)
  let ?h = "create_subscription c sid bid b"
  have h: "unsent b (snd ?h)" by (rule unsent_create_subscription)
  show ?case
  proof (cases "fst ?h")
    case (Inl x)
    then have "subscribe_all c sid (lb # bids) b = (Inl x, snd ?h)" by (cases ?h) (simp add: lb)
    then show ?thesis using h by simp
  next
    case (Inr u)
    then have "subscribe_all c sid (lb # bids) b = subscribe_all c sid bids (snd ?h)"
      by (cases ?h) (simp add: lb)
    then show ?thesis using h Cons.IH unsent_trans by metis
  qed
qed

lemma on_connected_result:
  "unsent b (fst (snd (on_connected c fs b))) \<and> set (snd (snd (on_connected c fs b))) \<subseteq> set fs"
proof (induction fs arbitrary: b)
  case Nil
  show ?case by (simp add: unsent_refl unsent_elapse)
next
  case (Cons fe fs)
  obtain f e where fe: "fe = (f, e)" by (cases fe)
  show ?case
  proof (cases "wait e > 10")
    case True
    then show ?thesis by (simp add: fe unsent_elapse)
  next
    case False
    let ?b0 = "elapse (wait e) b"
    have e0: "unsent b ?b0" by (rule unsent_elapse)
    have rec: "unsent b (fst (snd (on_connected c fs ?b0))) \<and>
        set (snd (snd (on_connected c fs ?b0))) \<subseteq> set (fe # fs)"
      using unsent_trans[OF e0] Cons.IH[of ?b0] by auto
    show ?thesis
    proof (cases f)
      case (Welcome sid)
      let ?s = "subscribe_all c sid (broadcaster_ids ?b0) ?b0"
      have s: "unsent b (snd ?s)" by (rule unsent_trans[OF e0 unsent_subscribe_all])
      show ?thesis using False s e0
        by (cases ?s; cases "fst ?s") (auto simp add: fe Welcome Let_def)
    qed (use False e0 rec in \<open>auto simp add: fe Let_def\<close>)
  qed
qed

lemma unsent_on_exception: "unsent b (snd (on_exception c u x b))"
  by (simp add: on_exception_def unsent_def emit_def elapse_def sleep_def completions_def)

lemma keeps_on_exception: "keeps b (snd (on_exception c u x (emit Disconnect b)))"
  by (rule unsent_keeps[OF unsent_trans[OF unsent_emit unsent_on_exception]]) simp

lemma keeps_run_iteration:
  assumes "\<forall>fe\<in>set (incoming c). prompt (snd fe)"
  shows "keeps b (snd (run_iteration c url b))"
proof -
  let ?b0 = "emit (Connect url) b"
  have k0: "keeps b ?b0" by (rule unsent_keeps[OF unsent_emit]) simp
  show ?thesis
  proof (cases "connect_ok c")
    case False
    then have "snd (run_iteration c url b) = snd (on_exception c url OSError ?b0)"
      by (simp add: run_iteration_def Let_def)
    then show ?thesis using keeps_trans[OF k0 unsent_keeps[OF unsent_on_exception]] by simp
  next
    case True
    let ?oc = "on_connected c (incoming c) ?b0"
    let ?b1 = "fst (snd ?oc)"
    let ?rest = "snd (snd ?oc)"
    have k1: "keeps b ?b1"
      using keeps_trans[OF k0 unsent_keeps] on_connected_result by blast
    have pr: "\<forall>fe\<in>set ?rest. prompt (snd fe)"
      using assms on_connected_result[of ?b0 c "incoming c"] by blast
    show ?thesis
    proof (cases "fst ?oc")
      case (Inl x)
      then have "snd (run_iteration c url b) = snd (on_exception c url x (emit Disconnect ?b1))"
        using True by (cases ?oc) (simp add: run_iteration_def Let_def)
      then show ?thesis using keeps_trans[OF k1 keeps_on_exception] by simp
    next
      case (Inr url')
      let ?rl = "receive_loop ?rest ?b1"
      let ?b2 = "snd ?rl"
      have k2: "keeps b ?b2" by (rule keeps_trans[OF k1 keeps_receive_loop[OF pr]])
      have kd: "keeps b (emit Disconnect ?b2)"
        by (rule keeps_trans[OF k2 unsent_keeps[OF unsent_emit]]) simp
      show ?thesis
      proof (cases "fst ?rl")
        case (Inl x)
        then have "snd (run_iteration c url b) = snd (on_exception c url' x (emit Disconnect ?b2))"
          using True Inr by (cases ?oc, cases ?rl) (simp add: run_iteration_def Let_def)
        then show ?thesis using keeps_trans[OF k2 keeps_on_exception] by simp
      next
        case rr: (Inr u)
        show ?thesis
        proof (cases "closing c")
          case ClosedOK
          then have "snd (run_iteration c url b) = emit Disconnect ?b2"
            using True Inr rr by (cases ?oc, cases ?rl) (simp add: run_iteration_def Let_def)
          then show ?thesis using kd by simp
        next
          case ClosedError
          then have "snd (run_iteration c url b) =
              snd (on_exception c url' ConnectionClosedError (emit Disconnect ?b2))"
            using True Inr rr by (cases ?oc, cases ?rl) (simp add: run_iteration_def Let_def)
          then show ?thesis using keeps_trans[OF k2 keeps_on_exception] by simp
        next
          case Interrupted
          then have "snd (run_iteration c url b) =
              snd (on_exception c url' KeyboardInterrupt (emit Disconnect ?b2))"
            using True Inr rr by (cases ?oc, cases ?rl) (simp add: run_iteration_def Let_def)
          then show ?thesis using keeps_trans[OF k2 keeps_on_exception] by simp
        next
          case Stalled
          then have "snd (run_iteration c url b) = ?b2"
            using True Inr rr by (cases ?oc, cases ?rl) (simp add: run_iteration_def Let_def)
          then show ?thesis using k2 by simp
        qed
      qed
    qed
  qed
qed

lemma keeps_run_loop:
  "\<forall>c\<in>set cs. \<forall>fe\<in>set (incoming c). prompt (snd fe) \<Longrightarrow> keeps b (snd (run_loop cs url b))"
proof (induction cs arbitrary: url b)
  case Nil
  show ?case by (simp add: keeps_refl)
next
  case (Cons c cs)
  let ?it = "run_iteration c url b"
  have k: "keeps b (snd ?it)" using Cons.prems by (simp add: keeps_run_iteration)
  show ?case
  proof (cases "fst ?it")
    case (Next u)
    then have "run_loop (c # cs) url b = run_loop cs u (snd ?it)" by (cases ?it) simp
    moreover have "keeps (snd ?it) (snd (run_loop cs u (snd ?it)))"
      using Cons.IH Cons.prems by simp
    ultimately show ?thesis using k keeps_trans by metis
  next
    case Stopped
    then have "run_loop (c # cs) url b = (Stopped, snd ?it)" by (cases ?it) simp
    then show ?thesis using k by simp
  next
    case Blocked
    then have "run_loop (c # cs) url b = (Blocked, snd ?it)" by (cases ?it) simp
    then show ?thesis using k by simp
  qed
qed

lemma paced_init: "paced (init uid bids now)"
  by (simp add: paced_def init_def completions_def spaced_def)

text \<open>
  C2. In every run of the bot from its initial state, over any number of connections,
  channels and commands, any two chat sends that completed lie at least the send interval
  of 1.2 seconds apart: \<open>_reply\<close> sleeps for what is left of the interval since the last
  completed send, sends, and stores the time of completion. The environment is assumed
  prompt: a sleep lasts at least as long as asked and a request takes no negative time,
  on the one clock that \<open>time.time()\<close> reads.
\<close>

theorem sends_spaced:
  assumes "\<forall>c\<in>set cs. \<forall>fe\<in>set (incoming c). 0 \<le> sleep_extra (snd fe) \<and> 0 \<le> send_latency (snd fe)"
    and "run cs (init uid bids now) = (v, b')"
  shows "\<forall>i j. i < j \<and> j < length (completions b') \<longrightarrow>
           completions b' ! i + 12 / 10 \<le> completions b' ! j"
proof -
  have "keeps (init uid bids now) (snd (run cs (init uid bids now)))"
    unfolding run_def using assms(1) by (intro keeps_run_loop) (simp add: prompt_def)
  then have k: "send_interval b' = send_interval (init uid bids now)" and p: "paced b'"
    using assms(2) paced_init by (simp_all add: keeps_def)
  from p have "spaced (send_interval b') (completions b')" by (simp add: paced_def)
  then have "spaced (12 / 10) (completions b')" unfolding k by (simp add: init_def)
  then show ?thesis unfolding spaced_def .
qed

theorem sends_spaced_witness:
  "completions (snd (run [conn_busy] (init ''9'' [(''alice'', ''1'')] 1000))) = [1000, 5006 / 5] \<and>
   completions (snd (run [conn_busy] (init ''9'' [(''alice'', ''1'')] 1000))) ! 0 + 12 / 10
     \<le> completions (snd (run [conn_busy] (init ''9'' [(''alice'', ''1'')] 1000))) ! 1"
proof -
  have h: "\<forall>c\<in>set [conn_busy]. \<forall>fe\<in>set (incoming c).
      0 \<le> sleep_extra (snd fe) \<and> 0 \<le> send_latency (snd fe)"
    by (simp add: conn_busy_def conn0_def env0_def)
  have c: "completions (snd (run [conn_busy] (init ''9'' [(''alice'', ''1'')] 1000))) = [1000, 5006 / 5]"
    by (simp add: completions_def session_eval conn_busy_def string_eval bot_eval Let_def)
  have "completions (snd (run [conn_busy] (init ''9'' [(''alice'', ''1'')] 1000))) ! 0 + 12 / 10
     \<le> completions (snd (run [conn_busy] (init ''9'' [(''alice'', ''1'')] 1000))) ! 1"
    using sends_spaced [OF h prod.collapse[symmetric], rule_format, of 0 1] c by simp
  with c show ?thesis by simp
qed

end
